theory Spec2Isabelle
  imports Main
begin

section \<open>The generic model manager of app/db/managers/base.py\<close>

text \<open>
  The development embeds \<^verbatim>\<open>ModelManager\<close> (app/db/managers/base.py): the binding of a
  manager class to its entity class in \<^verbatim>\<open>__init_subclass__\<close>, and the operations
  \<^verbatim>\<open>save\<close>, \<^verbatim>\<open>create\<close>, \<^verbatim>\<open>get\<close>, \<^verbatim>\<open>get_by\<close>, \<^verbatim>\<open>_maybe_get_by\<close>, \<^verbatim>\<open>get_or_create\<close>,
  \<^verbatim>\<open>update\<close>, \<^verbatim>\<open>update_or_create\<close> and \<^verbatim>\<open>no_autoflush\<close>.

  Python objects are identified by a reference (\<open>oid\<close>); their attributes live in a heap,
  so that an assignment through one reference is seen through every other one. A raised
  exception is the \<open>Inl\<close> branch of a result; every operation returns the state it leaves
  behind on both branches, because a \<^verbatim>\<open>finally\<close> clause runs on both.
\<close>

subsection \<open>Values, keyword arguments, exceptions\<close>

datatype pyval = PNone | PInt int | PStr string | PBool bool

text \<open>Keyword arguments and \<^verbatim>\<open>dict[str, Any]\<close> in insertion order.\<close>

type_synonym kwargs = "(string \<times> pyval) list"

type_synonym oid = nat

type_synonym attrs = "string \<rightharpoonup> pyval"

datatype type_error =
    MultipleValues string   \<comment> \<open>"got multiple values for keyword argument k"\<close>
  | InvalidKeyword string   \<comment> \<open>"k is an invalid keyword argument for Model"\<close>

text \<open>
  \<open>StatementError m\<close> stands for \<^verbatim>\<open>sqlalchemy.exc.StatementError\<close> and its subclasses
  (the DBAPI errors, among them IntegrityError), with \<open>m\<close> the text \<^verbatim>\<open>str(e)\<close>;
  \<open>MultipleResultsFound\<close> is the spec's AmbiguousResult; \<open>StorageFailure\<close> is every other
  exception coming out of the store.
\<close>

datatype py_error =
    TypeError type_error
  | AttributeError string
  | MultipleResultsFound
  | StatementError string
  | InvalidRequestError string
  | StorageFailure string

type_synonym ('a, 's) result = "(py_error + 'a) \<times> 's"

subsection \<open>Binding a manager class to its entity class\<close>

text \<open>
  The entity-type descriptor: the attribute names the mapped class accepts, the columns
  of its primary key, and whether the store generates the key on insert (an integer
  primary key such as \<^verbatim>\<open>User.id\<close>) or the caller supplies it (\<^verbatim>\<open>AccessToken.token\<close>).
\<close>

record entity =
  ename :: string
  field_names :: "string list"
  pkey :: "string list"
  generated_key :: bool

text \<open>
  What a class attribute or a generic argument can be, as far as \<^verbatim>\<open>__init_subclass__\<close>
  tells values apart: a class deriving from \<^verbatim>\<open>Base\<close>, any other class, or an object that
  is not a class (a \<^verbatim>\<open>TypeVar\<close>, a string, ...).
\<close>

datatype pyobj =
    ModelClass entity
  | OtherClass string
  | NotAClass string

text \<open>\<^verbatim>\<open>get_origin(base)\<close> for an entry of \<^verbatim>\<open>cls.__orig_bases__\<close>.\<close>

datatype origin =
    OriginModelManager        \<comment> \<open>\<^verbatim>\<open>origin is ModelManager\<close>\<close>
  | OriginManagerSubclass     \<comment> \<open>a class deriving from \<^verbatim>\<open>ModelManager\<close>\<close>
  | OriginOtherClass          \<comment> \<open>any other class, such as \<^verbatim>\<open>typing.Generic\<close>\<close>
  | OriginNone                \<comment> \<open>\<^verbatim>\<open>None\<close>: the base is not a parametrised generic\<close>

record generic_base =
  base_origin :: origin
  base_args :: "pyobj list"

text \<open>
  A manager class while it is being defined: \<open>model_attr\<close> is \<^verbatim>\<open>getattr(cls, "model", None)\<close>
  (own or inherited attribute; the annotation \<^verbatim>\<open>model: type[ModelT]\<close> of the base class
  creates no attribute), \<open>orig_bases\<close> is \<^verbatim>\<open>cls.__orig_bases__\<close>.
\<close>

record manager_class =
  model_attr :: "pyobj option"
  orig_bases :: "generic_base list"

text \<open>
  \<^verbatim>\<open>(model := getattr(cls, "model", None)) and isinstance(model, type) and issubclass(model, Base)\<close>
\<close>

fun is_model_class :: "pyobj option \<Rightarrow> bool" where
  "is_model_class (Some (ModelClass e)) = True"
| "is_model_class _ = False"

fun is_manager_origin :: "origin \<Rightarrow> bool" where
  "is_manager_origin OriginModelManager = True"
| "is_manager_origin OriginManagerSubclass = True"
| "is_manager_origin _ = False"

text \<open>\<^verbatim>\<open>args and isinstance(args[0], type) and issubclass(args[0], Base)\<close>\<close>

fun first_arg_model :: "pyobj list \<Rightarrow> pyobj option" where
  "first_arg_model (ModelClass e # _) = Some (ModelClass e)"
| "first_arg_model _ = None"

text \<open>The \<^verbatim>\<open>for base in cls.__orig_bases__\<close> loop; it breaks at the first assignment.\<close>

fun infer_model :: "generic_base list \<Rightarrow> pyobj option" where
  "infer_model [] = None"
| "infer_model (b # bs) =
     (if is_manager_origin (base_origin b) then
        (case first_arg_model (base_args b) of
           Some m \<Rightarrow> Some m
         | None \<Rightarrow> infer_model bs)
      else infer_model bs)"

text \<open>
  \<^verbatim>\<open>__init_subclass__\<close>, for a class statement without keyword arguments (which
  \<^verbatim>\<open>super().__init_subclass__(**kwargs)\<close> hands on to \<^verbatim>\<open>object\<close>). The body has no
  \<^verbatim>\<open>raise\<close>: the result is always \<open>Inr\<close>, with the class as the hook leaves it.
\<close>

definition init_subclass :: "manager_class \<Rightarrow> py_error + manager_class" where
  "init_subclass cls =
     (if is_model_class (model_attr cls) then Inr cls
      else (case infer_model (orig_bases cls) of
              Some m \<Rightarrow> Inr (cls\<lparr>model_attr := Some m\<rparr>)
            | None \<Rightarrow> Inr cls))"

text \<open>
  Reading \<^verbatim>\<open>self.model\<close>, which every operation does first (\<^verbatim>\<open>select(self.model)\<close>,
  \<^verbatim>\<open>self.model(**kwargs)\<close>, \<^verbatim>\<open>session.get(self.model, id)\<close>).
\<close>

definition bound_model :: "manager_class \<Rightarrow> py_error + pyobj" where
  "bound_model cls =
     (case model_attr cls of
        None \<Rightarrow> Inl (AttributeError ''model'')
      | Some m \<Rightarrow> Inr m)"

subsection \<open>The unit of work\<close>

datatype fault = StatementFault string | OtherFault string

fun raise_fault :: "fault \<Rightarrow> py_error" where
  "raise_fault (StatementFault m) = StatementError m"
| "raise_fault (OtherFault m) = StorageFailure m"

text \<open>
  Modelled from the spec: the unit of work (SQLAlchemy's \<^verbatim>\<open>AsyncSession\<close>, imported by the
  repository, not part of it) and the store behind it, for the table of one entity type.
  Section 3 and the glossary: the unit of work owns a set of tracked instances; an
  instance is created in memory, attached (tracked, not durable), flushed to the store
  (visible to the queries of this unit of work) and made durable by a commit; autoflush
  propagates pending changes to the store right before a query executes.

  \<^item> \<open>objs\<close>: the instances in memory, by reference;
  \<^item> \<open>next_oid\<close>: the next fresh reference;
  \<^item> \<open>pending\<close>: instances attached with \<^verbatim>\<open>session.add\<close> and not flushed yet;
  \<^item> \<open>rows\<close>: the rows the queries of this unit of work see, each with the reference of
    the instance that stands for it in this unit of work (tracking by identity);
  \<^item> \<open>durable\<close>: the rows as of the last commit;
  \<^item> \<open>next_key\<close>: the next primary key the store generates;
  \<^item> \<open>query_fault\<close>, \<open>flush_fault\<close>: the failure, if any, with which the store answers
    a query, respectively a flush.
\<close>

record session =
  autoflush :: bool
  objs :: "oid \<rightharpoonup> attrs"
  next_oid :: oid
  pending :: "oid list"
  rows :: "(oid \<times> attrs) list"
  durable :: "(oid \<times> attrs) list"
  next_key :: int
  query_fault :: "fault option"
  flush_fault :: "fault option"

subsection \<open>The scoped no-autoflush context\<close>

text \<open>
  \<^verbatim>\<open>no_autoflush\<close>: the body of the \<^verbatim>\<open>async with\<close> block is a state transformer that
  returns or raises; the \<^verbatim>\<open>finally\<close> clause runs in both cases and the result of the
  body, exception included, passes through.
\<close>

definition no_autoflush :: "(session \<Rightarrow> ('a, session) result) \<Rightarrow> session \<Rightarrow> ('a, session) result" where
  "no_autoflush body s =
     (let saved = autoflush s;
          (r, s') = body (s\<lparr>autoflush := False\<rparr>)
      in (r, s'\<lparr>autoflush := saved\<rparr>))"

subsection \<open>Primitives of the unit of work\<close>

text \<open>An attribute or column that was never set reads as \<^verbatim>\<open>None\<close> (SQL NULL).\<close>

definition col :: "attrs \<Rightarrow> string \<Rightarrow> pyval" where
  "col a k = (case a k of None \<Rightarrow> PNone | Some v \<Rightarrow> v)"

definition key_of :: "entity \<Rightarrow> attrs \<Rightarrow> pyval list" where
  "key_of e a = map (col a) (pkey e)"

definition attrs_of :: "session \<Rightarrow> oid \<Rightarrow> attrs" where
  "attrs_of s i = (case objs s i of None \<Rightarrow> Map.empty | Some a \<Rightarrow> a)"

text \<open>\<^verbatim>\<open>setattr(instance, key, value)\<close>: the object is changed in place, nothing else is.\<close>

definition setattr :: "oid \<Rightarrow> string \<Rightarrow> pyval \<Rightarrow> session \<Rightarrow> session" where
  "setattr i k v s = s\<lparr>objs := (objs s)(i \<mapsto> (attrs_of s i)(k \<mapsto> v))\<rparr>"

text \<open>\<^verbatim>\<open>for key, value in d.items(): setattr(instance, key, value)\<close>\<close>

fun setattrs :: "oid \<Rightarrow> kwargs \<Rightarrow> session \<Rightarrow> session" where
  "setattrs i [] s = s"
| "setattrs i ((k, v) # kvs) s = setattrs i kvs (setattr i k v s)"

text \<open>
  Modelled from the spec: \<^verbatim>\<open>session.add\<close>. The instance becomes tracked (pending) unless
  the unit of work tracks it already.
\<close>

definition session_add :: "oid \<Rightarrow> session \<Rightarrow> session" where
  "session_add i s =
     (if i \<in> set (pending s) \<or> i \<in> set (map fst (rows s)) then s
      else s\<lparr>pending := pending s @ [i]\<rparr>)"

text \<open>
  Modelled from the spec: the flush. The rows of tracked instances take the instances'
  current values; each pending instance becomes a row. A key the store generates is
  assigned on insert; a NULL or duplicate primary key is an IntegrityError, a subclass
  of the statement error.
\<close>

definition sync_rows :: "session \<Rightarrow> session" where
  "sync_rows s =
     s\<lparr>rows := map (\<lambda>(i, a). (i, case objs s i of None \<Rightarrow> a | Some a' \<Rightarrow> a')) (rows s)\<rparr>"

definition assign_key :: "entity \<Rightarrow> attrs \<Rightarrow> int \<Rightarrow> attrs \<times> int" where
  "assign_key e a n =
     (case pkey e of
        [k] \<Rightarrow> if generated_key e \<and> col a k = PNone then (a(k \<mapsto> PInt n), n + 1) else (a, n)
      | _ \<Rightarrow> (a, n))"

fun insert_pending :: "entity \<Rightarrow> oid list \<Rightarrow> session \<Rightarrow> (unit, session) result" where
  "insert_pending e [] s = (Inr (), s)"
| "insert_pending e (i # is) s =
     (let (a, n) = assign_key e (attrs_of s i) (next_key s);
          key = key_of e a
      in if PNone \<in> set key \<or> key \<in> set (map (\<lambda>(j, b). key_of e b) (rows s))
         then (Inl (StatementError ''IntegrityError''), s)
         else insert_pending e is
                (s\<lparr>objs := (objs s)(i \<mapsto> a), rows := rows s @ [(i, a)],
                   pending := is, next_key := n\<rparr>))"

definition session_flush :: "entity \<Rightarrow> session \<Rightarrow> (unit, session) result" where
  "session_flush e s =
     (case flush_fault s of
        Some f \<Rightarrow> (Inl (raise_fault f), s)
      | None \<Rightarrow> insert_pending e (pending s) (sync_rows s))"

text \<open>
  Modelled from the spec: \<^verbatim>\<open>session.commit\<close> flushes and durably persists all pending
  changes in the unit of work.
\<close>

definition session_commit :: "entity \<Rightarrow> session \<Rightarrow> (unit, session) result" where
  "session_commit e s =
     (case session_flush e s of
        (Inl err, s1) \<Rightarrow> (Inl err, s1)
      | (Inr u, s1) \<Rightarrow> (Inr (), s1\<lparr>durable := rows s1\<rparr>))"

text \<open>Modelled from the spec: autoflush, the flush right before a query executes.\<close>

definition autoflush_step :: "entity \<Rightarrow> session \<Rightarrow> (unit, session) result" where
  "autoflush_step e s = (if autoflush s then session_flush e s else (Inr (), s))"

text \<open>
  A row a query returns is handed out as the instance that stands for it; an instance
  that is in memory already is not overwritten.
\<close>

definition load :: "oid \<times> attrs \<Rightarrow> session \<Rightarrow> session" where
  "load r s =
     (case objs s (fst r) of
        None \<Rightarrow> s\<lparr>objs := (objs s)(fst r \<mapsto> snd r)\<rparr>
      | Some a \<Rightarrow> s)"

text \<open>\<^verbatim>\<open>filter_by(**kwargs)\<close>: a conjunction of equalities on the columns.\<close>

definition matches :: "kwargs \<Rightarrow> attrs \<Rightarrow> bool" where
  "matches kwargs a = list_all (\<lambda>(k, v). col a k = v) kwargs"

text \<open>
  Modelled from the spec: \<^verbatim>\<open>select(self.model).filter_by(**kwargs)\<close> builds the statement;
  a keyword that names no attribute of the entity is refused here, before anything is
  sent to the store.
\<close>

definition select_filter_by :: "entity \<Rightarrow> kwargs \<Rightarrow> py_error + kwargs" where
  "select_filter_by e kwargs =
     (case find (\<lambda>k. k \<notin> set (field_names e)) (map fst kwargs) of
        Some k \<Rightarrow> Inl (InvalidRequestError k)
      | None \<Rightarrow> Inr kwargs)"

text \<open>
  Modelled from the spec: \<^verbatim>\<open>session.execute(stmt)\<close> followed by \<^verbatim>\<open>.scalars()\<close>: autoflush if
  it is enabled, then the store answers with a failure or with the matching rows, which
  come back as instances.
\<close>

definition session_execute :: "entity \<Rightarrow> kwargs \<Rightarrow> session \<Rightarrow> (oid list, session) result" where
  "session_execute e stmt s =
     (case autoflush_step e s of
        (Inl err, s1) \<Rightarrow> (Inl err, s1)
      | (Inr u, s1) \<Rightarrow>
          (case query_fault s1 of
             Some f \<Rightarrow> (Inl (raise_fault f), s1)
           | None \<Rightarrow>
               (let found = filter (\<lambda>(i, a). matches stmt a) (rows s1)
                in (Inr (map fst found), fold load found s1))))"

text \<open>Modelled from the spec: \<^verbatim>\<open>one_or_none()\<close>; more than one row is AmbiguousResult.\<close>

fun one_or_none :: "'a list \<Rightarrow> py_error + 'a option" where
  "one_or_none [] = Inr None"
| "one_or_none [x] = Inr (Some x)"
| "one_or_none (x # y # zs) = Inl MultipleResultsFound"

text \<open>
  Modelled from the spec: \<^verbatim>\<open>session.get(self.model, id)\<close>, with a scalar identifier as a
  one-element list and a tuple as the list of its components. An identifier of the
  wrong shape is refused; otherwise the row with this primary key, if any, comes back
  as its instance. (A lookup that the identity map could answer without a query is
  modelled as that query; a pending instance is not in the identity map.)
\<close>

definition session_get :: "entity \<Rightarrow> pyval list \<Rightarrow> session \<Rightarrow> (oid option, session) result" where
  "session_get e ident s =
     (if length ident \<noteq> length (pkey e) then (Inl (InvalidRequestError ''identifier''), s)
      else
        (case autoflush_step e s of
           (Inl err, s1) \<Rightarrow> (Inl err, s1)
         | (Inr u, s1) \<Rightarrow>
             (case query_fault s1 of
                Some f \<Rightarrow> (Inl (raise_fault f), s1)
              | None \<Rightarrow>
                  (case find (\<lambda>(i, a). key_of e a = ident) (rows s1) of
                     None \<Rightarrow> (Inr None, s1)
                   | Some r \<Rightarrow> (Inr (Some (fst r)), load r s1)))))"

text \<open>
  Modelled from the spec: the constructor of the entity class, \<^verbatim>\<open>self.model(**kwargs)\<close>. It
  accepts field values; a keyword that names no attribute of the class is a TypeError.
  The new instance has a fresh reference and is not tracked.
\<close>

definition construct :: "entity \<Rightarrow> kwargs \<Rightarrow> session \<Rightarrow> (oid, session) result" where
  "construct e kwargs s =
     (case find (\<lambda>k. k \<notin> set (field_names e)) (map fst kwargs) of
        Some k \<Rightarrow> (Inl (TypeError (InvalidKeyword k)), s)
      | None \<Rightarrow>
          (Inr (next_oid s),
           setattrs (next_oid s) kwargs
             (s\<lparr>objs := (objs s)(next_oid s \<mapsto> Map.empty), next_oid := Suc (next_oid s)\<rparr>)))"

subsection \<open>The operations of the manager\<close>

text \<open>
  The operations below are those of a manager whose \<^verbatim>\<open>self.model\<close> is the entity
  class \<open>e\<close>, working on the unit of work \<^verbatim>\<open>self.session\<close>.
\<close>

definition save :: "entity \<Rightarrow> oid \<Rightarrow> bool \<Rightarrow> session \<Rightarrow> (oid, session) result" where
  "save e instance commit s =
     (let s1 = session_add instance s
      in if commit then
           (case session_commit e s1 of
              (Inl err, s2) \<Rightarrow> (Inl err, s2)
            | (Inr u, s2) \<Rightarrow> (Inr instance, s2))
         else (Inr instance, s1))"

definition create :: "entity \<Rightarrow> bool \<Rightarrow> kwargs \<Rightarrow> session \<Rightarrow> (oid, session) result" where
  "create e commit kwargs s =
     (case construct e kwargs s of
        (Inl err, s1) \<Rightarrow> (Inl err, s1)
      | (Inr instance, s1) \<Rightarrow>
          (case save e instance commit s1 of
             (Inl err, s2) \<Rightarrow> (Inl err, s2)
           | (Inr i, s2) \<Rightarrow> (Inr instance, s2)))"

definition get :: "entity \<Rightarrow> pyval list \<Rightarrow> session \<Rightarrow> (oid option, session) result" where
  "get e ident s = session_get e ident s"

definition get_by :: "entity \<Rightarrow> kwargs \<Rightarrow> session \<Rightarrow> (oid option, session) result" where
  "get_by e kwargs s =
     (case select_filter_by e kwargs of
        Inl err \<Rightarrow> (Inl err, s)
      | Inr stmt \<Rightarrow>
          (case session_execute e stmt s of
             (Inl err, s1) \<Rightarrow> (Inl err, s1)
           | (Inr found, s1) \<Rightarrow>
               (case one_or_none found of
                  Inl err \<Rightarrow> (Inl err, s1)
                | Inr r \<Rightarrow> (Inr r, s1))))"

text \<open>\<^verbatim>\<open>needle in haystack\<close> on strings.\<close>

fun starts_with :: "string \<Rightarrow> string \<Rightarrow> bool" where
  "starts_with [] h = True"
| "starts_with (c # cs) [] = False"
| "starts_with (c # cs) (d # ds) = (c = d \<and> starts_with cs ds)"

fun str_contains :: "string \<Rightarrow> string \<Rightarrow> bool" where
  "str_contains n [] = (n = [])"
| "str_contains n (d # ds) = (starts_with n (d # ds) \<or> str_contains n ds)"

definition unset_column_message :: string where
  "unset_column_message = ''no value has been set for this column''"

text \<open>
  \<^verbatim>\<open>_maybe_get_by\<close>: the \<^verbatim>\<open>try\<close> sits inside the \<^verbatim>\<open>no_autoflush\<close> block. A statement error
  whose text contains the message falls through to \<^verbatim>\<open>return None\<close>; a statement error
  without it is raised again; any other exception is not caught at all.
\<close>

definition maybe_get_by :: "entity \<Rightarrow> kwargs \<Rightarrow> session \<Rightarrow> (oid option, session) result" where
  "maybe_get_by e kwargs s =
     no_autoflush
       (\<lambda>s0. case get_by e kwargs s0 of
                (Inl (StatementError m), s1) \<Rightarrow>
                  if \<not> str_contains unset_column_message m then (Inl (StatementError m), s1)
                  else (Inr None, s1)
              | (Inl err, s1) \<Rightarrow> (Inl err, s1)
              | (Inr r, s1) \<Rightarrow> (Inr r, s1)) s"

text \<open>
  The call \<^verbatim>\<open>self.create(**defaults, **kwargs, commit=commit)\<close> against the signature
  \<^verbatim>\<open>create(self, commit=False, **kwargs)\<close>: the keywords of \<^verbatim>\<open>defaults\<close>, of \<^verbatim>\<open>kwargs\<close> and
  \<^verbatim>\<open>commit\<close> are collected in this order, a keyword given twice is a TypeError, and so
  is a keyword \<^verbatim>\<open>self\<close>, which the bound method has already. What is left goes to
  \<^verbatim>\<open>**kwargs\<close> of \<^verbatim>\<open>create\<close>.
\<close>

fun first_dup :: "string list \<Rightarrow> string list \<Rightarrow> string option" where
  "first_dup seen [] = None"
| "first_dup seen (k # ks) = (if k \<in> set seen then Some k else first_dup (seen @ [k]) ks)"

definition call_create :: "kwargs \<Rightarrow> kwargs \<Rightarrow> py_error + kwargs" where
  "call_create defaults kwargs =
     (case first_dup [] (map fst defaults @ map fst kwargs @ [''commit'']) of
        Some k \<Rightarrow> Inl (TypeError (MultipleValues k))
      | None \<Rightarrow>
          if ''self'' \<in> set (map fst defaults @ map fst kwargs)
          then Inl (TypeError (MultipleValues ''self''))
          else Inr (defaults @ kwargs))"

text \<open>\<^verbatim>\<open>defaults or {}\<close>\<close>

fun or_empty :: "kwargs option \<Rightarrow> kwargs" where
  "or_empty None = []"
| "or_empty (Some d) = d"

text \<open>
  \<^verbatim>\<open>get_or_create\<close>. \<^verbatim>\<open>if not instance\<close> is the test for \<^verbatim>\<open>None\<close>: the entity classes
  define neither \<^verbatim>\<open>__bool__\<close> nor \<^verbatim>\<open>__len__\<close>, so an instance is true.
\<close>

definition get_or_create ::
  "entity \<Rightarrow> kwargs option \<Rightarrow> bool \<Rightarrow> kwargs \<Rightarrow> session \<Rightarrow> (oid \<times> bool, session) result" where
  "get_or_create e defaults commit kwargs s =
     (case maybe_get_by e kwargs s of
        (Inl err, s1) \<Rightarrow> (Inl err, s1)
      | (Inr None, s1) \<Rightarrow>
          (case call_create (or_empty defaults) kwargs of
             Inl err \<Rightarrow> (Inl err, s1)
           | Inr kw \<Rightarrow>
               (case create e commit kw s1 of
                  (Inl err, s2) \<Rightarrow> (Inl err, s2)
                | (Inr instance, s2) \<Rightarrow> (Inr (instance, True), s2)))
      | (Inr (Some instance), s1) \<Rightarrow> (Inr (instance, False), s1))"

definition update :: "entity \<Rightarrow> oid \<Rightarrow> bool \<Rightarrow> kwargs \<Rightarrow> session \<Rightarrow> (oid, session) result" where
  "update e instance commit kwargs s = save e instance commit (setattrs instance kwargs s)"

definition update_or_create ::
  "entity \<Rightarrow> kwargs option \<Rightarrow> bool \<Rightarrow> kwargs \<Rightarrow> session \<Rightarrow> (oid \<times> bool, session) result" where
  "update_or_create e defaults commit kwargs s =
     (let d = or_empty defaults
      in case maybe_get_by e kwargs s of
           (Inl err, s1) \<Rightarrow> (Inl err, s1)
         | (Inr None, s1) \<Rightarrow>
             (case call_create d kwargs of
                Inl err \<Rightarrow> (Inl err, s1)
              | Inr kw \<Rightarrow>
                  (case create e commit kw s1 of
                     (Inl err, s2) \<Rightarrow> (Inl err, s2)
                   | (Inr instance, s2) \<Rightarrow> (Inr (instance, True), s2)))
         | (Inr (Some instance), s1) \<Rightarrow> (Inr (instance, False), setattrs instance d s1))"

subsection \<open>The entity classes of the repository and sample states\<close>

text \<open>app/db/models/user.py and app/db/models/access_token.py.\<close>

definition User :: entity where
  "User = \<lparr>ename = ''User'',
           field_names = [''id'', ''email'', ''hashed_password'', ''is_active'', ''is_superuser'',
                          ''is_verified'', ''first_name'', ''last_name'', ''access_tokens'',
                          ''created_at'', ''updated_at''],
           pkey = [''id''], generated_key = True\<rparr>"

definition AccessToken :: entity where
  "AccessToken = \<lparr>ename = ''AccessToken'',
                  field_names = [''token'', ''user_id'', ''user'', ''created_at'', ''updated_at''],
                  pkey = [''token''], generated_key = False\<rparr>"

text \<open>A fresh unit of work on an empty table, as the session factory configures it.\<close>

definition empty_session :: session where
  "empty_session = \<lparr>autoflush = False, objs = Map.empty, next_oid = 0, pending = [],
                    rows = [], durable = [], next_key = 1,
                    query_fault = None, flush_fault = None\<rparr>"

text \<open>
  Manager classes: \<^verbatim>\<open>UserModelManager\<close> of app/db/managers/user_model_manager.py; a
  manager for \<^verbatim>\<open>ModelManager[AccessToken]\<close> whose body declares \<^verbatim>\<open>model = User\<close>; and
  \<^verbatim>\<open>class Plain(ModelManager): pass\<close>, which declares nothing and inherits
  \<^verbatim>\<open>__orig_bases__ = (Generic[ModelT],)\<close> from \<^verbatim>\<open>ModelManager\<close>.
\<close>

definition UserModelManager :: manager_class where
  "UserModelManager =
     \<lparr>model_attr = Some (ModelClass User),
      orig_bases = [\<lparr>base_origin = OriginModelManager, base_args = [ModelClass User]\<rparr>]\<rparr>"

definition token_manager_declaring_user :: manager_class where
  "token_manager_declaring_user =
     \<lparr>model_attr = Some (ModelClass User),
      orig_bases = [\<lparr>base_origin = OriginModelManager, base_args = [ModelClass AccessToken]\<rparr>]\<rparr>"

definition plain_manager :: manager_class where
  "plain_manager =
     \<lparr>model_attr = None,
      orig_bases = [\<lparr>base_origin = OriginOtherClass, base_args = [NotAClass ''ModelT'']\<rparr>]\<rparr>"

text \<open>
  A generic intermediate base, \<^verbatim>\<open>class Intermediate(ModelManager[ModelT])\<close>, and a manager
  derived from it, \<^verbatim>\<open>class Users(Intermediate[User])\<close>: the case the test
  \<^verbatim>\<open>issubclass(origin, ModelManager)\<close> of the loop is there for.
\<close>

definition intermediate_manager :: manager_class where
  "intermediate_manager =
     \<lparr>model_attr = None,
      orig_bases = [\<lparr>base_origin = OriginModelManager, base_args = [NotAClass ''ModelT'']\<rparr>]\<rparr>"

definition users_via_intermediate :: manager_class where
  "users_via_intermediate =
     \<lparr>model_attr = None,
      orig_bases = [\<lparr>base_origin = OriginManagerSubclass, base_args = [ModelClass User]\<rparr>]\<rparr>"

text \<open>
  An entity type with a column named \<^verbatim>\<open>commit\<close>: the manager is generic, and nothing
  keeps a column from bearing the name of a parameter of \<^verbatim>\<open>create\<close>.
\<close>

definition Revision :: entity where
  "Revision = \<lparr>ename = ''Revision'', field_names = [''id'', ''commit'', ''message''],
               pkey = [''id''], generated_key = True\<rparr>"

text \<open>Filter fields and defaults of the spec's scenario.\<close>

definition filter_email :: kwargs where
  "filter_email = [(''email'', PStr ''b@x.com'')]"

definition defaults_name :: kwargs where
  "defaults_name = [(''first_name'', PStr ''B'')]"

text \<open>A unit of work on a table with two committed rows, both loaded.\<close>

definition alice :: attrs where
  "alice = [''id'' \<mapsto> PInt 1, ''email'' \<mapsto> PStr ''a@x.com'', ''first_name'' \<mapsto> PStr ''A'']"

definition bob :: attrs where
  "bob = [''id'' \<mapsto> PInt 2, ''email'' \<mapsto> PStr ''b@x.com'', ''first_name'' \<mapsto> PStr ''A'']"

definition two_users :: session where
  "two_users = empty_session\<lparr>objs := [0 \<mapsto> alice, 1 \<mapsto> bob], next_oid := 2,
                             rows := [(0, alice), (1, bob)], durable := [(0, alice), (1, bob)],
                             next_key := 3\<rparr>"

text \<open>
  Units of work whose store answers every query with a failure: a statement error for
  a column that has no value yet, and a lost connection.
\<close>

definition unset_column_session :: session where
  "unset_column_session =
     empty_session\<lparr>autoflush := True,
                   query_fault := Some (StatementFault
                     ''(InvalidRequestError) Cannot resolve value for column user_id; no value has been set for this column'')\<rparr>"

definition connection_lost_session :: session where
  "connection_lost_session =
     empty_session\<lparr>autoflush := True, query_fault := Some (OtherFault ''connection lost'')\<rparr>"

text \<open>A fresh unit of work with autoflush on, SQLAlchemy's own default.\<close>

definition autoflush_session :: session where
  "autoflush_session = empty_session\<lparr>autoflush := True\<rparr>"

text \<open>Further field values: an access token, a new first name, a filter for a third user.\<close>

definition token_fields :: kwargs where
  "token_fields = [(''token'', PStr ''tok''), (''user_id'', PInt 1)]"


definition filter_carol :: kwargs where
  "filter_carol = [(''email'', PStr ''c@x.com'')]"

text \<open>
  Field values that give every column of \<^verbatim>\<open>User\<close> that has neither a default nor a
  generated value: as defaults next to a filter on the email, with the key left as
  \<^verbatim>\<open>None\<close>, and with a key of the caller's.
\<close>

definition defaults_full :: kwargs where
  "defaults_full = [(''first_name'', PStr ''B''), (''last_name'', PStr ''Doe''),
                    (''hashed_password'', PStr ''pw'')]"

definition none_id_fields :: kwargs where
  "none_id_fields = [(''id'', PNone), (''email'', PStr ''b@x.com''), (''hashed_password'', PStr ''pw''),
                     (''first_name'', PStr ''B''), (''last_name'', PStr ''Doe'')]"

definition dave_fields :: kwargs where
  "dave_fields = [(''id'', PInt 5), (''email'', PStr ''d@x.com''), (''hashed_password'', PStr ''pw''),
                  (''first_name'', PStr ''D''), (''last_name'', PStr ''Doe'')]"

subsection \<open>Notions used in the statements\<close>

text \<open>
  What \<^verbatim>\<open>get_or_create\<close> and \<^verbatim>\<open>update_or_create\<close> do once the lookup has found
  nothing: the call of \<^verbatim>\<open>create\<close> and the pair they return.
\<close>

abbreviation create_branch ::
  "entity \<Rightarrow> kwargs \<Rightarrow> bool \<Rightarrow> kwargs \<Rightarrow> session \<Rightarrow> (oid \<times> bool, session) result" where
  "create_branch e d commit kwargs s \<equiv>
     (case call_create d kwargs of
        Inl err \<Rightarrow> (Inl err, s)
      | Inr kw \<Rightarrow>
          (case create e commit kw s of
             (Inl err, s2) \<Rightarrow> (Inl err, s2)
           | (Inr instance, s2) \<Rightarrow> (Inr (instance, True), s2)))"

text \<open>
  The invariant of the unit of work about references: no instance is pending twice, a
  pending instance has no row yet, and every tracked reference has been handed out.
\<close>

definition wf_session :: "session \<Rightarrow> bool" where
  "wf_session s =
     (distinct (pending s)
      \<and> list_all (\<lambda>j. j \<notin> set (map fst (rows s)) \<and> j < next_oid s) (pending s)
      \<and> list_all (\<lambda>j. j < next_oid s) (map fst (rows s)))"

text \<open>Every row whose instance is in memory carries the values of that instance.\<close>

definition in_sync :: "session \<Rightarrow> bool" where
  "in_sync s = list_all (\<lambda>(j, b). case objs s j of None \<Rightarrow> True | Some a \<Rightarrow> a = b) (rows s)"

section \<open>Properties\<close>

lemmas eval_defs =
  get_or_create_def update_or_create_def maybe_get_by_def no_autoflush_def get_by_def get_def
  select_filter_by_def session_execute_def session_get_def autoflush_step_def
  session_flush_def session_commit_def sync_rows_def assign_key_def key_of_def
  call_create_def create_def construct_def save_def session_add_def
  setattr_def attrs_of_def matches_def col_def load_def unset_column_message_def
  Let_def empty_session_def User_def AccessToken_def filter_email_def defaults_name_def

lemmas sample_defs = alice_def bob_def two_users_def

subsection \<open>Binding at class definition\<close>

lemma infer_model_None:
  "(infer_model bs = None) =
     (\<forall>b \<in> set bs. is_manager_origin (base_origin b) \<longrightarrow> first_arg_model (base_args b) = None)"
  by (induction bs) (auto split: option.splits)

lemma init_subclass_never_raises: "\<exists>cls'. init_subclass cls = Inr cls'"
  by (simp add: init_subclass_def split: option.splits)

lemma init_subclass_infers:
  "\<not> is_model_class (model_attr cls) \<Longrightarrow> infer_model (orig_bases cls) = Some m \<Longrightarrow>
   init_subclass cls = Inr (cls\<lparr>model_attr := Some m\<rparr>)"
  by (simp add: init_subclass_def)

text \<open>
  C2, as the spec states it: a subclass that neither declares \<^verbatim>\<open>model\<close> nor names an
  entity class as its generic parameter fails while it is being defined. The hook has no
  \<^verbatim>\<open>raise\<close>; for \<^verbatim>\<open>class Plain(ModelManager): pass\<close> the definition goes through and the
  class is left as it was.
\<close>

theorem plain_subclass_is_defined_counterexample:
  "init_subclass plain_manager = Inr plain_manager"
  by (simp add: init_subclass_def plain_manager_def)

text \<open>
  C2, amended: for every subclass that declares no \<^verbatim>\<open>model\<close> and has no manager base
  whose first generic argument is an entity class, the class definition completes without
  an error and leaves the class without a model; the failure comes later, when an
  operation reads \<^verbatim>\<open>self.model\<close> (an AttributeError).
\<close>

theorem unbound_subclass_fails_on_use:
  assumes "model_attr cls = None"
    and "\<forall>b \<in> set (orig_bases cls).
           is_manager_origin (base_origin b) \<longrightarrow> first_arg_model (base_args b) = None"
  shows "init_subclass cls = Inr cls \<and> bound_model cls = Inl (AttributeError ''model'')"
proof -
  from assms(2) have "infer_model (orig_bases cls) = None"
    by (simp only: infer_model_None)
  with assms(1) show ?thesis
    by (simp add: init_subclass_def bound_model_def)
qed

theorem unbound_subclass_fails_on_use_witness:
  "model_attr plain_manager = None
   \<and> init_subclass plain_manager = Inr plain_manager
   \<and> bound_model plain_manager = Inl (AttributeError ''model'')"
  using unbound_subclass_fails_on_use [of plain_manager]
  by (simp add: plain_manager_def)

text \<open>
  C9: when the subclass declares a valid entity class as \<^verbatim>\<open>model\<close>, the hook returns at
  once and the class keeps that declaration, whatever its generic bases name.
\<close>

theorem explicit_model_wins:
  assumes "model_attr cls = Some (ModelClass e)"
  shows "init_subclass cls = Inr cls"
  using assms by (simp add: init_subclass_def)

text \<open>
  The manager declared as \<^verbatim>\<open>ModelManager[AccessToken]\<close> with \<^verbatim>\<open>model = User\<close> stays bound
  to \<^verbatim>\<open>User\<close>, although inference alone would have bound it to \<^verbatim>\<open>AccessToken\<close>.
\<close>

theorem explicit_model_wins_witness:
  "model_attr token_manager_declaring_user = Some (ModelClass User)
   \<and> infer_model (orig_bases token_manager_declaring_user) = Some (ModelClass AccessToken)
   \<and> init_subclass token_manager_declaring_user = Inr token_manager_declaring_user
   \<and> bound_model token_manager_declaring_user = Inr (ModelClass User)"
  using explicit_model_wins [of token_manager_declaring_user User]
  by (simp add: token_manager_declaring_user_def bound_model_def)

text \<open>
  A generic intermediate base has to be definable without a model, and the manager derived
  from it is bound through the generic argument.
\<close>

lemma intermediate_base_defined:
  "init_subclass intermediate_manager = Inr intermediate_manager
   \<and> init_subclass users_via_intermediate
       = Inr (users_via_intermediate\<lparr>model_attr := Some (ModelClass User)\<rparr>)"
  by (simp add: init_subclass_def intermediate_manager_def users_via_intermediate_def)

lemma UserModelManager_bound:
  "init_subclass UserModelManager = Inr UserModelManager
   \<and> bound_model UserModelManager = Inr (ModelClass User)"
  by (simp add: init_subclass_def UserModelManager_def bound_model_def)

subsection \<open>The no-autoflush scope\<close>

text \<open>
  C6: the body runs with autoflush off; whether it returns or raises (its result \<open>r\<close> is
  passed on as it is), the state it leaves gets the autoflush setting from before the
  block, and nothing else of the state is touched by entering and leaving: a body that
  changes nothing leaves the unit of work exactly as it was.
\<close>

theorem no_autoflush_restores:
  "no_autoflush body s =
     (fst (body (s\<lparr>autoflush := False\<rparr>)),
      (snd (body (s\<lparr>autoflush := False\<rparr>)))\<lparr>autoflush := autoflush s\<rparr>)
   \<and> autoflush (snd (no_autoflush body s)) = autoflush s
   \<and> no_autoflush (\<lambda>t. (r, t)) s = (r, s)"
  by (simp add: no_autoflush_def split: prod.splits)

subsection \<open>Lookups\<close>

lemma load_frame:
  "autoflush (load r s) = autoflush s \<and> next_oid (load r s) = next_oid s
   \<and> pending (load r s) = pending s \<and> rows (load r s) = rows s
   \<and> durable (load r s) = durable s \<and> next_key (load r s) = next_key s
   \<and> query_fault (load r s) = query_fault s \<and> flush_fault (load r s) = flush_fault s"
  by (simp add: load_def split: option.splits)

lemma fold_load_frame:
  "autoflush (fold load rs s) = autoflush s \<and> next_oid (fold load rs s) = next_oid s
   \<and> pending (fold load rs s) = pending s \<and> rows (fold load rs s) = rows s
   \<and> durable (fold load rs s) = durable s \<and> next_key (fold load rs s) = next_key s
   \<and> query_fault (fold load rs s) = query_fault s \<and> flush_fault (fold load rs s) = flush_fault s"
  by (induction rs arbitrary: s) (simp_all add: load_frame)

lemma select_filter_by_valid:
  "set (map fst kwargs) \<subseteq> set (field_names e) \<Longrightarrow> select_filter_by e kwargs = Inr kwargs"
proof -
  assume "set (map fst kwargs) \<subseteq> set (field_names e)"
  then have "find (\<lambda>k. k \<notin> set (field_names e)) (map fst kwargs) = None"
    by (auto simp: find_None_iff)
  then show ?thesis by (simp add: select_filter_by_def)
qed

lemma select_filter_by_cases:
  "select_filter_by e kwargs = Inr kwargs \<or> (\<exists>k. select_filter_by e kwargs = Inl (InvalidRequestError k))"
  by (simp add: select_filter_by_def split: option.splits)

lemma get_by_answered:
  assumes "set (map fst kwargs) \<subseteq> set (field_names e)"
    and "autoflush_step e s = (Inr (), s1)"
    and "query_fault s1 = None"
  shows "get_by e kwargs s =
           (case one_or_none (map fst (filter (\<lambda>(i, a). matches kwargs a) (rows s1))) of
              Inl err \<Rightarrow> Inl err | Inr r \<Rightarrow> Inr r,
            fold load (filter (\<lambda>(i, a). matches kwargs a) (rows s1)) s1)"
  using assms
  by (simp add: get_by_def select_filter_by_valid session_execute_def Let_def split: sum.splits)

lemma one_or_none_fst:
  fixes xs :: "(oid \<times> attrs) list"
  shows "((case one_or_none (map fst xs) of Inl err \<Rightarrow> Inl err | Inr r \<Rightarrow> Inr r) = Inl MultipleResultsFound)
           = (1 < length xs)"
    and "((case one_or_none (map fst xs) of Inl err \<Rightarrow> Inl err | Inr r \<Rightarrow> Inr r) = Inr None)
           = (length xs = 0)"
    and "((case one_or_none (map fst xs) of Inl err \<Rightarrow> Inl err | Inr r \<Rightarrow> Inr r) = Inr (Some i))
           = (\<exists>a. xs = [(i, a)])"
  by (induction xs rule: one_or_none.induct) auto

text \<open>
  C3: for a filter on fields of the entity, when the store answers the query (the
  autoflush step, if any, and the query itself do not fail), \<^verbatim>\<open>get_by\<close> raises
  AmbiguousResult exactly when more than one row the query sees matches the filter,
  returns \<^verbatim>\<open>None\<close> exactly when no row matches, and returns an instance exactly when
  that instance stands for the only matching row.
\<close>

theorem get_by_one_or_none:
  assumes "set (map fst kwargs) \<subseteq> set (field_names e)"
    and "autoflush_step e s = (Inr (), s1)"
    and "query_fault s1 = None"
  shows "(fst (get_by e kwargs s) = Inl MultipleResultsFound)
           = (1 < length (filter (\<lambda>(i, a). matches kwargs a) (rows s1)))
       \<and> (fst (get_by e kwargs s) = Inr None)
           = (length (filter (\<lambda>(i, a). matches kwargs a) (rows s1)) = 0)
       \<and> (fst (get_by e kwargs s) = Inr (Some i))
           = (\<exists>a. filter (\<lambda>(i, a). matches kwargs a) (rows s1) = [(i, a)])"
proof -
  let ?found = "filter (\<lambda>(i, a). matches kwargs a) (rows s1)"
  have g: "fst (get_by e kwargs s) =
             (case one_or_none (map fst ?found) of Inl err \<Rightarrow> Inl err | Inr r \<Rightarrow> Inr r)"
    using assms by (simp add: get_by_answered)
  show ?thesis
    unfolding g by (simp only: one_or_none_fst simp_thms)
qed

theorem get_by_one_or_none_witness:
  "autoflush_step User two_users = (Inr (), two_users)
   \<and> query_fault two_users = None
   \<and> fst (get_by User [(''first_name'', PStr ''A'')] two_users) = Inl MultipleResultsFound
   \<and> fst (get_by User [(''email'', PStr ''c@x.com'')] two_users) = Inr None
   \<and> fst (get_by User filter_email two_users) = Inr (Some 1)"
proof -
  have h1: "autoflush_step User two_users = (Inr (), two_users)"
    by (simp add: autoflush_step_def two_users_def empty_session_def)
  have h2: "query_fault two_users = None"
    by (simp add: two_users_def empty_session_def)
  have r: "rows two_users = [(0, alice), (1, bob)]"
    by (simp add: two_users_def)
  have f1: "filter (\<lambda>(i, a). matches [(''first_name'', PStr ''A'')] a) (rows two_users)
              = [(0, alice), (1, bob)]"
    unfolding r by (simp add: matches_def col_def alice_def bob_def)
  have f2: "filter (\<lambda>(i, a). matches [(''email'', PStr ''c@x.com'')] a) (rows two_users) = []"
    unfolding r by (simp add: matches_def col_def alice_def bob_def)
  have f3: "filter (\<lambda>(i, a). matches filter_email a) (rows two_users) = [(1, bob)]"
    unfolding r by (simp add: matches_def col_def alice_def bob_def filter_email_def)
  from get_by_one_or_none [OF _ h1 h2, of "[(''first_name'', PStr ''A'')]"] f1
  have "fst (get_by User [(''first_name'', PStr ''A'')] two_users) = Inl MultipleResultsFound"
    by (simp add: User_def)
  moreover from get_by_one_or_none [OF _ h1 h2, of "[(''email'', PStr ''c@x.com'')]"] f2
  have "fst (get_by User [(''email'', PStr ''c@x.com'')] two_users) = Inr None"
    by (simp add: User_def)
  moreover from get_by_one_or_none [OF _ h1 h2, of filter_email 1] f3
  have "fst (get_by User filter_email two_users) = Inr (Some 1)"
    by (simp add: User_def filter_email_def)
  ultimately show ?thesis using h1 h2 by simp
qed

lemma session_get_answered:
  assumes "length ident = length (pkey e)"
    and "autoflush_step e s = (Inr (), s1)"
    and "query_fault s1 = None"
  shows "get e ident s =
           (case find (\<lambda>(i, a). key_of e a = ident) (rows s1) of
              None \<Rightarrow> (Inr None, s1)
            | Some r \<Rightarrow> (Inr (Some (fst r)), load r s1))"
  using assms by (simp add: get_def session_get_def)

text \<open>
  C8: when the store answers, a lookup by primary key with no row of that key and a
  lookup by filter that no row matches both return \<^verbatim>\<open>None\<close>: nothing is raised and
  the unit of work is left as the autoflush step left it.
\<close>

theorem missing_record_is_absent:
  assumes "autoflush_step e s = (Inr (), s1)"
    and "query_fault s1 = None"
  shows "(length ident = length (pkey e) \<and> (\<forall>r \<in> set (rows s1). key_of e (snd r) \<noteq> ident)
            \<longrightarrow> get e ident s = (Inr None, s1))
       \<and> (set (map fst kwargs) \<subseteq> set (field_names e) \<and> (\<forall>r \<in> set (rows s1). \<not> matches kwargs (snd r))
            \<longrightarrow> get_by e kwargs s = (Inr None, s1))"
proof (intro conjI impI)
  assume a: "length ident = length (pkey e) \<and> (\<forall>r \<in> set (rows s1). key_of e (snd r) \<noteq> ident)"
  then have "find (\<lambda>(i, a). key_of e a = ident) (rows s1) = None"
    by (auto simp: find_None_iff)
  with a assms show "get e ident s = (Inr None, s1)"
    by (simp add: session_get_answered)
next
  assume a: "set (map fst kwargs) \<subseteq> set (field_names e) \<and> (\<forall>r \<in> set (rows s1). \<not> matches kwargs (snd r))"
  then have "filter (\<lambda>(i, a). matches kwargs a) (rows s1) = []"
    by (auto simp: filter_empty_conv)
  with a assms show "get_by e kwargs s = (Inr None, s1)"
    by (simp add: get_by_answered)
qed

theorem missing_record_is_absent_witness:
  "autoflush_step User two_users = (Inr (), two_users)
   \<and> query_fault two_users = None
   \<and> get User [PInt 7] two_users = (Inr None, two_users)
   \<and> get_by User [(''email'', PStr ''missing@x.com'')] two_users = (Inr None, two_users)"
proof -
  have h1: "autoflush_step User two_users = (Inr (), two_users)"
    by (simp add: autoflush_step_def two_users_def empty_session_def)
  have h2: "query_fault two_users = None"
    by (simp add: two_users_def empty_session_def)
  have r: "rows two_users = [(0, alice), (1, bob)]"
    by (simp add: two_users_def)
  note t = missing_record_is_absent [OF h1 h2, of "[PInt 7]" "[(''email'', PStr ''missing@x.com'')]"]
  have k: "length [PInt 7] = length (pkey User)
            \<and> (\<forall>r \<in> set (rows two_users). key_of User (snd r) \<noteq> [PInt 7])"
    unfolding r by (simp add: User_def key_of_def col_def alice_def bob_def)
  have m: "set (map fst [(''email'', PStr ''missing@x.com'')]) \<subseteq> set (field_names User)
            \<and> (\<forall>r \<in> set (rows two_users). \<not> matches [(''email'', PStr ''missing@x.com'')] (snd r))"
    unfolding r by (simp add: User_def matches_def col_def alice_def bob_def)
  from t k m h1 h2 show ?thesis by blast
qed

subsection \<open>The tolerant lookup\<close>

lemma starts_with_iff: "starts_with n h = (\<exists>q. h = n @ q)"
  by (induction n h rule: starts_with.induct) auto

lemma str_contains_iff: "str_contains n h = (\<exists>p q. h = p @ n @ q)"
proof (induction h)
  case Nil
  then show ?case by auto
next
  case (Cons d ds)
  show ?case
  proof
    assume "str_contains n (d # ds)"
    then consider "starts_with n (d # ds)" | "str_contains n ds" by auto
    then show "\<exists>p q. d # ds = p @ n @ q"
    proof cases
      case 1
      then obtain q where "d # ds = n @ q" by (auto simp: starts_with_iff)
      then have "d # ds = [] @ n @ q" by simp
      then show ?thesis by blast
    next
      case 2
      with Cons obtain p q where "ds = p @ n @ q" by auto
      then have "d # ds = (d # p) @ n @ q" by simp
      then show ?thesis by blast
    qed
  next
    assume "\<exists>p q. d # ds = p @ n @ q"
    then obtain p q where pq: "d # ds = p @ n @ q" by blast
    show "str_contains n (d # ds)"
    proof (cases p)
      case Nil
      with pq have "starts_with n (d # ds)" by (auto simp: starts_with_iff)
      then show ?thesis by simp
    next
      case (Cons c cs)
      with pq have "ds = cs @ n @ q" by simp
      with Cons.IH have "str_contains n ds" by blast
      then show ?thesis by simp
    qed
  qed
qed

lemma maybe_get_by_Inr:
  "get_by e kw (s\<lparr>autoflush := False\<rparr>) = (Inr r, s1) \<Longrightarrow>
   maybe_get_by e kw s = (Inr r, s1\<lparr>autoflush := autoflush s\<rparr>)"
  by (simp add: maybe_get_by_def no_autoflush_def)

lemma maybe_get_by_caught:
  "get_by e kw (s\<lparr>autoflush := False\<rparr>) = (Inl (StatementError m), s1) \<Longrightarrow>
   str_contains unset_column_message m \<Longrightarrow>
   maybe_get_by e kw s = (Inr None, s1\<lparr>autoflush := autoflush s\<rparr>)"
  by (simp add: maybe_get_by_def no_autoflush_def)

lemma maybe_get_by_raised:
  "get_by e kw (s\<lparr>autoflush := False\<rparr>) = (Inl err, s1) \<Longrightarrow>
   \<not> (\<exists>m. err = StatementError m \<and> str_contains unset_column_message m) \<Longrightarrow>
   maybe_get_by e kw s = (Inl err, s1\<lparr>autoflush := autoflush s\<rparr>)"
  by (cases err) (simp_all add: maybe_get_by_def no_autoflush_def)

text \<open>
  C1: when the lookup of \<^verbatim>\<open>get_or_create\<close> or \<^verbatim>\<open>update_or_create\<close> (which runs with
  autoflush off) raises, then: if the exception is a statement error whose text contains
  "no value has been set for this column", \<^verbatim>\<open>_maybe_get_by\<close> returns \<^verbatim>\<open>None\<close> and both
  operations continue with the create branch, exactly as for a lookup without a match;
  any other exception comes out of both operations unchanged.
\<close>

theorem lookup_failure_caught_or_raised:
  assumes "get_by e kwargs (s\<lparr>autoflush := False\<rparr>) = (Inl err, s1)"
  shows "((\<exists>m. err = StatementError m \<and> str_contains unset_column_message m) \<longrightarrow>
            maybe_get_by e kwargs s = (Inr None, s1\<lparr>autoflush := autoflush s\<rparr>)
          \<and> get_or_create e defaults commit kwargs s =
              create_branch e (or_empty defaults) commit kwargs (s1\<lparr>autoflush := autoflush s\<rparr>)
          \<and> update_or_create e defaults commit kwargs s =
              create_branch e (or_empty defaults) commit kwargs (s1\<lparr>autoflush := autoflush s\<rparr>))
       \<and> (\<not> (\<exists>m. err = StatementError m \<and> str_contains unset_column_message m) \<longrightarrow>
            get_or_create e defaults commit kwargs s = (Inl err, s1\<lparr>autoflush := autoflush s\<rparr>)
          \<and> update_or_create e defaults commit kwargs s = (Inl err, s1\<lparr>autoflush := autoflush s\<rparr>))"
proof (intro conjI impI)
  assume "\<exists>m. err = StatementError m \<and> str_contains unset_column_message m"
  then obtain m where m: "err = StatementError m" "str_contains unset_column_message m" by blast
  with assms show c: "maybe_get_by e kwargs s = (Inr None, s1\<lparr>autoflush := autoflush s\<rparr>)"
    by (simp add: maybe_get_by_caught)
  from c show "get_or_create e defaults commit kwargs s =
      create_branch e (or_empty defaults) commit kwargs (s1\<lparr>autoflush := autoflush s\<rparr>)"
    by (simp add: get_or_create_def)
  from c show "update_or_create e defaults commit kwargs s =
      create_branch e (or_empty defaults) commit kwargs (s1\<lparr>autoflush := autoflush s\<rparr>)"
    by (simp add: update_or_create_def)
next
  assume "\<not> (\<exists>m. err = StatementError m \<and> str_contains unset_column_message m)"
  with assms have r: "maybe_get_by e kwargs s = (Inl err, s1\<lparr>autoflush := autoflush s\<rparr>)"
    by (rule maybe_get_by_raised)
  from r show "get_or_create e defaults commit kwargs s = (Inl err, s1\<lparr>autoflush := autoflush s\<rparr>)"
    by (simp add: get_or_create_def)
  from r show "update_or_create e defaults commit kwargs s = (Inl err, s1\<lparr>autoflush := autoflush s\<rparr>)"
    by (simp add: update_or_create_def)
qed

theorem lookup_failure_caught_or_raised_witness:
  "get_by User filter_email (unset_column_session\<lparr>autoflush := False\<rparr>)
     = (Inl (StatementError
         ''(InvalidRequestError) Cannot resolve value for column user_id; no value has been set for this column''),
        unset_column_session\<lparr>autoflush := False\<rparr>)
   \<and> maybe_get_by User filter_email unset_column_session = (Inr None, unset_column_session)
   \<and> fst (get_or_create User (Some defaults_name) False filter_email unset_column_session) = Inr (0, True)
   \<and> fst (update_or_create User (Some defaults_name) False filter_email unset_column_session) = Inr (0, True)
   \<and> get_by User filter_email (connection_lost_session\<lparr>autoflush := False\<rparr>)
     = (Inl (StorageFailure ''connection lost''), connection_lost_session\<lparr>autoflush := False\<rparr>)
   \<and> get_or_create User (Some defaults_name) False filter_email connection_lost_session
     = (Inl (StorageFailure ''connection lost''), connection_lost_session)
   \<and> update_or_create User (Some defaults_name) False filter_email connection_lost_session
     = (Inl (StorageFailure ''connection lost''), connection_lost_session)"
proof -
  have h1: "get_by User filter_email (unset_column_session\<lparr>autoflush := False\<rparr>)
     = (Inl (StatementError
         ''(InvalidRequestError) Cannot resolve value for column user_id; no value has been set for this column''),
        unset_column_session\<lparr>autoflush := False\<rparr>)"
    by (simp add: eval_defs unset_column_session_def connection_lost_session_def)
  have h2: "get_by User filter_email (connection_lost_session\<lparr>autoflush := False\<rparr>)
     = (Inl (StorageFailure ''connection lost''), connection_lost_session\<lparr>autoflush := False\<rparr>)"
    by (simp add: eval_defs unset_column_session_def connection_lost_session_def)
  have r1: "(unset_column_session\<lparr>autoflush := False\<rparr>)\<lparr>autoflush := autoflush unset_column_session\<rparr>
              = unset_column_session"
    by (simp add: unset_column_session_def connection_lost_session_def empty_session_def)
  have r2: "(connection_lost_session\<lparr>autoflush := False\<rparr>)\<lparr>autoflush := autoflush connection_lost_session\<rparr>
              = connection_lost_session"
    by (simp add: unset_column_session_def connection_lost_session_def empty_session_def)
  have m: "\<exists>m. StatementError
       ''(InvalidRequestError) Cannot resolve value for column user_id; no value has been set for this column''
         = StatementError m \<and> str_contains unset_column_message m"
    by (simp add: unset_column_message_def)
  have n: "\<not> (\<exists>m. StorageFailure ''connection lost'' = StatementError m
                  \<and> str_contains unset_column_message m)"
    by simp
  have c: "fst (create_branch User (or_empty (Some defaults_name)) False filter_email unset_column_session)
            = Inr (0, True)"
    by (simp add: eval_defs unset_column_session_def connection_lost_session_def)
  note t1 = lookup_failure_caught_or_raised [OF h1, where defaults = "Some defaults_name" and commit = False]
  note t2 = lookup_failure_caught_or_raised [OF h2, where defaults = "Some defaults_name" and commit = False]
  from t1 m have
    "maybe_get_by User filter_email unset_column_session
       = (Inr None, (unset_column_session\<lparr>autoflush := False\<rparr>)\<lparr>autoflush := autoflush unset_column_session\<rparr>)
     \<and> get_or_create User (Some defaults_name) False filter_email unset_column_session
       = create_branch User (or_empty (Some defaults_name)) False filter_email
           ((unset_column_session\<lparr>autoflush := False\<rparr>)\<lparr>autoflush := autoflush unset_column_session\<rparr>)
     \<and> update_or_create User (Some defaults_name) False filter_email unset_column_session
       = create_branch User (or_empty (Some defaults_name)) False filter_email
           ((unset_column_session\<lparr>autoflush := False\<rparr>)\<lparr>autoflush := autoflush unset_column_session\<rparr>)"
    by blast
  then have
    "maybe_get_by User filter_email unset_column_session = (Inr None, unset_column_session)
     \<and> fst (get_or_create User (Some defaults_name) False filter_email unset_column_session) = Inr (0, True)
     \<and> fst (update_or_create User (Some defaults_name) False filter_email unset_column_session) = Inr (0, True)"
    unfolding r1 using c by simp
  moreover from t2 n have
    "get_or_create User (Some defaults_name) False filter_email connection_lost_session
       = (Inl (StorageFailure ''connection lost''),
          (connection_lost_session\<lparr>autoflush := False\<rparr>)\<lparr>autoflush := autoflush connection_lost_session\<rparr>)
     \<and> update_or_create User (Some defaults_name) False filter_email connection_lost_session
       = (Inl (StorageFailure ''connection lost''),
          (connection_lost_session\<lparr>autoflush := False\<rparr>)\<lparr>autoflush := autoflush connection_lost_session\<rparr>)"
    by blast
  then have
    "get_or_create User (Some defaults_name) False filter_email connection_lost_session
       = (Inl (StorageFailure ''connection lost''), connection_lost_session)
     \<and> update_or_create User (Some defaults_name) False filter_email connection_lost_session
       = (Inl (StorageFailure ''connection lost''), connection_lost_session)"
    unfolding r2 .
  ultimately show ?thesis using h1 h2 by simp
qed

subsection \<open>Attribute assignment, flush and create\<close>

lemma setattr_frame:
  "autoflush (setattr i k v s) = autoflush s \<and> next_oid (setattr i k v s) = next_oid s
   \<and> pending (setattr i k v s) = pending s \<and> rows (setattr i k v s) = rows s
   \<and> durable (setattr i k v s) = durable s \<and> next_key (setattr i k v s) = next_key s
   \<and> query_fault (setattr i k v s) = query_fault s \<and> flush_fault (setattr i k v s) = flush_fault s"
  by (simp add: setattr_def)

lemma setattrs_frame:
  "autoflush (setattrs i kvs s) = autoflush s \<and> next_oid (setattrs i kvs s) = next_oid s
   \<and> pending (setattrs i kvs s) = pending s \<and> rows (setattrs i kvs s) = rows s
   \<and> durable (setattrs i kvs s) = durable s \<and> next_key (setattrs i kvs s) = next_key s
   \<and> query_fault (setattrs i kvs s) = query_fault s \<and> flush_fault (setattrs i kvs s) = flush_fault s"
  by (induction i kvs s rule: setattrs.induct) (simp_all add: setattr_frame)

lemma setattrs_other: "j \<noteq> i \<Longrightarrow> objs (setattrs i kvs s) j = objs s j"
  by (induction i kvs s rule: setattrs.induct) (simp_all add: setattr_def)

lemma attrs_of_setattr:
  "attrs_of (setattr i k v s) i x = (if x = k then Some v else attrs_of s i x)"
  by (simp add: setattr_def attrs_of_def)

lemma attrs_of_setattrs:
  "attrs_of (setattrs i kvs s) i x =
     (case map_of (rev kvs) x of None \<Rightarrow> attrs_of s i x | Some v \<Rightarrow> Some v)"
proof (induction i kvs s rule: setattrs.induct)
  case (1 i s)
  then show ?case by simp
next
  case (2 i k v kvs s)
  then show ?case
    by (simp add: attrs_of_setattr map_add_def split: option.splits)
qed

lemma setattrs_sets:
  assumes "distinct (map fst kvs)" and "(k, v) \<in> set kvs"
  shows "attrs_of (setattrs i kvs s) i k = Some v"
proof -
  from assms have "map_of (rev kvs) k = Some v"
    by (intro map_of_is_SomeI) (simp_all add: distinct_rev rev_map [symmetric])
  then show ?thesis by (simp add: attrs_of_setattrs)
qed




lemma get_by_no_flush:
  assumes "\<not> autoflush s" and "get_by e kw s = (r, s1)"
  shows "autoflush s1 = autoflush s \<and> next_oid s1 = next_oid s \<and> pending s1 = pending s
         \<and> rows s1 = rows s \<and> durable s1 = durable s \<and> next_key s1 = next_key s
         \<and> query_fault s1 = query_fault s \<and> flush_fault s1 = flush_fault s"
  using assms
  by (auto simp: get_by_def session_execute_def autoflush_step_def Let_def fold_load_frame
           split: sum.splits option.splits)


lemma maybe_get_by_frame:
  assumes "maybe_get_by e kw s = (r, s1)"
  shows "autoflush s1 = autoflush s \<and> next_oid s1 = next_oid s \<and> pending s1 = pending s
         \<and> rows s1 = rows s \<and> durable s1 = durable s \<and> next_key s1 = next_key s
         \<and> query_fault s1 = query_fault s \<and> flush_fault s1 = flush_fault s"
proof -
  obtain r0 s0 where g: "get_by e kw (s\<lparr>autoflush := False\<rparr>) = (r0, s0)"
    by (cases "get_by e kw (s\<lparr>autoflush := False\<rparr>)")
  have f: "next_oid s0 = next_oid s \<and> pending s0 = pending s
         \<and> rows s0 = rows s \<and> durable s0 = durable s \<and> next_key s0 = next_key s
         \<and> query_fault s0 = query_fault s \<and> flush_fault s0 = flush_fault s"
    using get_by_no_flush [OF _ g] by simp
  from assms g have "s1 = s0\<lparr>autoflush := autoflush s\<rparr>"
    by (auto simp: maybe_get_by_def no_autoflush_def split: sum.splits py_error.splits if_splits)
  with f show ?thesis by simp
qed


lemma assign_key_keeps:
  "a k = Some v \<Longrightarrow> v \<noteq> PNone \<or> k \<notin> set (pkey e) \<Longrightarrow> fst (assign_key e a n) k = Some v"
  by (auto simp: assign_key_def col_def split: list.splits)

lemma insert_pending_frame:
  "insert_pending e js s = (r, s') \<Longrightarrow>
   autoflush s' = autoflush s \<and> next_oid s' = next_oid s \<and> durable s' = durable s
   \<and> query_fault s' = query_fault s \<and> flush_fault s' = flush_fault s"
proof (induction js arbitrary: s)
  case Nil
  then show ?case by simp
next
  case (Cons j js)
  obtain a n where an: "assign_key e (attrs_of s j) (next_key s) = (a, n)"
    by (cases "assign_key e (attrs_of s j) (next_key s)")
  show ?case
  proof (cases "PNone \<in> set (key_of e a) \<or> key_of e a \<in> set (map (\<lambda>(j, b). key_of e b) (rows s))")
    case True
    with Cons.prems an show ?thesis by simp
  next
    case False
    with Cons.prems an have
      "insert_pending e js (s\<lparr>objs := (objs s)(j \<mapsto> a), rows := rows s @ [(j, a)],
                              pending := js, next_key := n\<rparr>) = (r, s')"
      by simp
    from Cons.IH [OF this] show ?thesis by simp
  qed
qed


lemma insert_pending_keeps_attrs:
  "insert_pending e js s = (r, s') \<Longrightarrow> attrs_of s i k = Some v \<Longrightarrow>
   v \<noteq> PNone \<or> k \<notin> set (pkey e) \<Longrightarrow> attrs_of s' i k = Some v"
proof (induction js arbitrary: s)
  case Nil
  then show ?case by simp
next
  case (Cons j js)
  obtain a n where an: "assign_key e (attrs_of s j) (next_key s) = (a, n)"
    by (cases "assign_key e (attrs_of s j) (next_key s)")
  show ?case
  proof (cases "PNone \<in> set (key_of e a) \<or> key_of e a \<in> set (map (\<lambda>(j, b). key_of e b) (rows s))")
    case True
    with Cons.prems an show ?thesis by simp
  next
    case False
    let ?s2 = "s\<lparr>objs := (objs s)(j \<mapsto> a), rows := rows s @ [(j, a)],
                  pending := js, next_key := n\<rparr>"
    from False Cons.prems an have step: "insert_pending e js ?s2 = (r, s')"
      by simp
    have "attrs_of ?s2 i k = Some v"
    proof (cases "i = j")
      case True
      from assign_key_keeps [OF _ Cons.prems(3), of "attrs_of s j" "next_key s"] Cons.prems(2) an True
      show ?thesis by (simp add: attrs_of_def)
    next
      case False
      with Cons.prems(2) show ?thesis by (simp add: attrs_of_def)
    qed
    from Cons.IH [OF step this Cons.prems(3)] show ?thesis .
  qed
qed

lemma insert_pending_last:
  "insert_pending e (js @ [i]) s = (Inr (), s') \<Longrightarrow>
   \<exists>R a. rows s' = R @ [(i, a)] \<and> key_of e a \<notin> set (map (\<lambda>(j, b). key_of e b) R)
         \<and> objs s' i = Some a \<and> pending s' = [] \<and> (js = [] \<longrightarrow> R = rows s)"
proof (induction js arbitrary: s)
  case Nil
  obtain a n where an: "assign_key e (attrs_of s i) (next_key s) = (a, n)"
    by (cases "assign_key e (attrs_of s i) (next_key s)")
  from Nil an show ?case
    by (auto simp: Let_def split: if_splits)
next
  case (Cons j js)
  obtain a n where an: "assign_key e (attrs_of s j) (next_key s) = (a, n)"
    by (cases "assign_key e (attrs_of s j) (next_key s)")
  show ?case
  proof (cases "PNone \<in> set (key_of e a) \<or> key_of e a \<in> set (map (\<lambda>(j, b). key_of e b) (rows s))")
    case True
    with Cons.prems an show ?thesis by simp
  next
    case False
    with Cons.prems an have
      "insert_pending e (js @ [i]) (s\<lparr>objs := (objs s)(j \<mapsto> a), rows := rows s @ [(j, a)],
                              pending := js @ [i], next_key := n\<rparr>) = (Inr (), s')"
      by simp
    from Cons.IH [OF this] show ?thesis by auto
  qed
qed

lemma insert_pending_in_sync:
  "insert_pending e js s = (r, s') \<Longrightarrow> in_sync s \<Longrightarrow> distinct js \<Longrightarrow>
   set js \<inter> set (map fst (rows s)) = {} \<Longrightarrow> in_sync s'"
proof (induction js arbitrary: s)
  case Nil
  then show ?case by simp
next
  case (Cons j js)
  obtain a n where an: "assign_key e (attrs_of s j) (next_key s) = (a, n)"
    by (cases "assign_key e (attrs_of s j) (next_key s)")
  show ?case
  proof (cases "PNone \<in> set (key_of e a) \<or> key_of e a \<in> set (map (\<lambda>(j, b). key_of e b) (rows s))")
    case True
    with Cons.prems an show ?thesis by simp
  next
    case False
    let ?s2 = "s\<lparr>objs := (objs s)(j \<mapsto> a), rows := rows s @ [(j, a)],
                  pending := js, next_key := n\<rparr>"
    from False Cons.prems an have step: "insert_pending e js ?s2 = (r, s')"
      by simp
    from Cons.prems(4) have jr: "\<And>b. (j, b) \<notin> set (rows s)" by force
    have "in_sync ?s2"
      using Cons.prems(2) jr
      by (fastforce simp: in_sync_def list_all_iff split: option.splits if_splits)
    moreover have "distinct js" using Cons.prems(3) by simp
    moreover have "set js \<inter> set (map fst (rows ?s2)) = {}"
      using Cons.prems(3,4) by auto
    ultimately show ?thesis using Cons.IH [OF step] by blast
  qed
qed

lemma sync_rows_in_sync: "in_sync (sync_rows s)"
  by (auto simp: in_sync_def sync_rows_def list_all_iff split: option.splits)

lemma in_sync_sync_rows: "in_sync s \<Longrightarrow> sync_rows s = s"
proof -
  assume "in_sync s"
  then have "map (\<lambda>(i, a). (i, case objs s i of None \<Rightarrow> a | Some a' \<Rightarrow> a')) (rows s) = rows s"
    by (intro map_idI) (auto simp: in_sync_def list_all_iff split: option.splits)
  then show ?thesis by (simp add: sync_rows_def)
qed

lemma construct_Inr:
  assumes "construct e kw s = (Inr i, s1)"
  shows "i = next_oid s"
    and "s1 = setattrs (next_oid s) kw
                (s\<lparr>objs := (objs s)(next_oid s \<mapsto> Map.empty), next_oid := Suc (next_oid s)\<rparr>)"
    and "set (map fst kw) \<subseteq> set (field_names e)"
  using assms by (auto simp: construct_def find_None_iff split: option.splits)

lemma construct_valid:
  "set (map fst kw) \<subseteq> set (field_names e) \<Longrightarrow>
   construct e kw s =
     (Inr (next_oid s),
      setattrs (next_oid s) kw
        (s\<lparr>objs := (objs s)(next_oid s \<mapsto> Map.empty), next_oid := Suc (next_oid s)\<rparr>))"
proof -
  assume "set (map fst kw) \<subseteq> set (field_names e)"
  then have "find (\<lambda>k. k \<notin> set (field_names e)) (map fst kw) = None"
    by (auto simp: find_None_iff)
  then show ?thesis by (simp add: construct_def)
qed

lemma construct_attrs:
  assumes "construct e kw s = (Inr i, s1)" and "distinct (map fst kw)" and "(k, v) \<in> set kw"
  shows "attrs_of s1 i k = Some v"
  using construct_Inr(1,2) [OF assms(1)] setattrs_sets [OF assms(2,3)] by simp

lemma construct_frame:
  assumes "construct e kw s = (r, s1)"
  shows "autoflush s1 = autoflush s \<and> pending s1 = pending s \<and> rows s1 = rows s
         \<and> durable s1 = durable s \<and> next_key s1 = next_key s
         \<and> query_fault s1 = query_fault s \<and> flush_fault s1 = flush_fault s"
  using assms by (auto simp: construct_def setattrs_frame split: option.splits)

lemma attrs_of_cong: "objs s = objs t \<Longrightarrow> attrs_of s i = attrs_of t i"
  by (simp add: attrs_of_def)

lemma objs_session_add: "objs (session_add i s) = objs s"
  by (simp add: session_add_def)

lemma objs_sync_rows: "objs (sync_rows s) = objs s"
  by (simp add: sync_rows_def)

lemma session_flush_Inr:
  "session_flush e s = (Inr u, s1) \<Longrightarrow>
   flush_fault s = None \<and> insert_pending e (pending s) (sync_rows s) = (Inr (), s1)"
  by (auto simp: session_flush_def split: option.splits)

lemma session_commit_Inr:
  "session_commit e s = (Inr u, s2) \<Longrightarrow>
   \<exists>s1. session_flush e s = (Inr (), s1) \<and> s2 = s1\<lparr>durable := rows s1\<rparr>"
  by (auto simp: session_commit_def split: prod.splits sum.splits)

lemma session_commit_keeps_attrs:
  assumes "session_commit e s = (Inr u, s2)" and "attrs_of s i k = Some v"
    and "v \<noteq> PNone \<or> k \<notin> set (pkey e)"
  shows "attrs_of s2 i k = Some v"
proof -
  from session_commit_Inr [OF assms(1)] obtain s1
    where f: "session_flush e s = (Inr (), s1)" and s2: "s2 = s1\<lparr>durable := rows s1\<rparr>" by blast
  from session_flush_Inr [OF f]
  have ins: "insert_pending e (pending s) (sync_rows s) = (Inr (), s1)" by simp
  have "attrs_of (sync_rows s) i k = Some v"
    using assms(2) attrs_of_cong [OF objs_sync_rows, of s i] by simp
  from insert_pending_keeps_attrs [OF ins this assms(3)]
  have "attrs_of s1 i k = Some v" .
  with s2 show ?thesis by (simp add: attrs_of_def)
qed

lemma save_Inr: "save e i commit s = (Inr j, s2) \<Longrightarrow> j = i"
  by (auto simp: save_def Let_def split: prod.splits sum.splits if_splits)

lemma create_Inr:
  assumes "create e commit kw s = (Inr i, s2)"
  shows "\<exists>s1. construct e kw s = (Inr i, s1) \<and> save e i commit s1 = (Inr i, s2)"
proof -
  obtain r1 s1 where c: "construct e kw s = (r1, s1)"
    by (cases "construct e kw s")
  show ?thesis
  proof (cases r1)
    case (Inl err)
    with assms c show ?thesis by (simp add: create_def)
  next
    case (Inr i')
    obtain r2 s2' where s: "save e i' commit s1 = (r2, s2')"
      by (cases "save e i' commit s1")
    from assms c Inr s have "i' = i \<and> s2' = s2 \<and> (\<exists>j. r2 = Inr j)"
      by (cases r2) (simp_all add: create_def)
    with s c Inr save_Inr [of e i commit s1 _ s2] show ?thesis by auto
  qed
qed

lemma save_keeps_attrs:
  assumes "save e i commit s = (Inr j, s2)" and "attrs_of s i' k = Some v"
    and "v \<noteq> PNone \<or> k \<notin> set (pkey e)"
  shows "attrs_of s2 i' k = Some v"
proof (cases commit)
  case True
  with assms(1) obtain u where c: "session_commit e (session_add i s) = (Inr u, s2)"
    by (auto simp: save_def Let_def split: prod.splits sum.splits)
  have "attrs_of (session_add i s) i' k = Some v"
    using assms(2) attrs_of_cong [OF objs_session_add, of i s i'] by simp
  from session_commit_keeps_attrs [OF c this assms(3)] show ?thesis .
next
  case False
  with assms(1) have "s2 = session_add i s" by (auto simp: save_def)
  with assms(2) attrs_of_cong [OF objs_session_add, of i s i'] show ?thesis by simp
qed

lemma create_attrs:
  assumes "create e commit kw s = (Inr i, s2)" and "distinct (map fst kw)" and "(k, v) \<in> set kw"
    and "v \<noteq> PNone \<or> k \<notin> set (pkey e)"
  shows "i = next_oid s" and "attrs_of s2 i k = Some v"
proof -
  from create_Inr [OF assms(1)] obtain s1
    where c: "construct e kw s = (Inr i, s1)" and s: "save e i commit s1 = (Inr i, s2)" by blast
  from construct_Inr(1) [OF c] show "i = next_oid s" .
  from save_keeps_attrs [OF s construct_attrs [OF c assms(2,3)] assms(4)]
  show "attrs_of s2 i k = Some v" .
qed

lemma first_dup_None: "(first_dup seen ks = None) = (distinct ks \<and> set seen \<inter> set ks = {})"
  by (induction seen ks rule: first_dup.induct) auto

lemma first_dup_Some: "first_dup seen ks = Some k \<Longrightarrow> k \<in> set ks"
  by (induction seen ks rule: first_dup.induct) (auto split: if_splits)

lemma call_create_ok:
  assumes "distinct (map fst d)" and "distinct (map fst kw)"
    and "set (map fst d) \<inter> set (map fst kw) = {}"
    and "''commit'' \<notin> set (map fst (d @ kw))" and "''self'' \<notin> set (map fst (d @ kw))"
  shows "call_create d kw = Inr (d @ kw)"
proof -
  from assms have "first_dup [] (map fst d @ map fst kw @ [''commit'']) = None"
    by (auto simp: first_dup_None)
  with assms(5) show ?thesis by (simp add: call_create_def)
qed

lemma call_create_shared:
  assumes "k \<in> set (map fst d)" and "k \<in> set (map fst kw)"
  shows "\<exists>k'. call_create d kw = Inl (TypeError (MultipleValues k'))"
proof -
  from assms have "\<not> distinct (map fst d @ map fst kw @ [''commit''])" by auto
  then have "first_dup [] (map fst d @ map fst kw @ [''commit'']) \<noteq> None"
    by (simp only: first_dup_None) simp
  then show ?thesis by (auto simp: call_create_def)
qed

lemma call_create_Inr:
  "call_create d kw = Inr x \<Longrightarrow> x = d @ kw \<and> distinct (map fst (d @ kw))"
  by (auto simp: call_create_def first_dup_None split: option.splits if_splits)

subsection \<open>The keywords of the create branch\<close>

text \<open>
  C10, as stated: disjoint keys of \<^verbatim>\<open>defaults\<close> and of the filter are enough for the
  create to go through with the union of both. For an entity with a column \<^verbatim>\<open>commit\<close>,
  \<^verbatim>\<open>get_or_create(defaults={"commit": "abc"}, message="m")\<close> has disjoint keys, finds no
  row, and fails: \<^verbatim>\<open>commit\<close> reaches \<^verbatim>\<open>create\<close> twice, from \<^verbatim>\<open>**defaults\<close> and from
  \<^verbatim>\<open>commit=commit\<close>.
\<close>

theorem reserved_keyword_counterexample:
  "set (map fst [(''commit'', PStr ''abc'')]) \<inter> set (map fst [(''message'', PStr ''m'')]) = {}
   \<and> get_or_create Revision (Some [(''commit'', PStr ''abc'')]) False [(''message'', PStr ''m'')]
         empty_session
       = (Inl (TypeError (MultipleValues ''commit'')), empty_session)"
  by (simp add: eval_defs Revision_def)

text \<open>
  C10, amended: for every call of \<^verbatim>\<open>get_or_create\<close> or \<^verbatim>\<open>update_or_create\<close> that reaches
  the create branch, if \<^verbatim>\<open>defaults\<close> and the filter fields have disjoint keys and none
  of them is named \<^verbatim>\<open>commit\<close> or \<^verbatim>\<open>self\<close> (the parameters of \<^verbatim>\<open>create\<close> itself), the
  result is that of \<^verbatim>\<open>create\<close> on the union of both, paired with \<^verbatim>\<open>True\<close>, and a created
  instance carries every value of the union (a key column given as \<^verbatim>\<open>None\<close> apart, which
  the store may fill); if a key appears in both, the call fails with the
  multiple-values TypeError and the unit of work stays as the lookup left it.
\<close>

theorem create_branch_keywords:
  assumes "maybe_get_by e kwargs s = (Inr None, s1)"
  shows "(distinct (map fst (or_empty defaults)) \<and> distinct (map fst kwargs)
          \<and> set (map fst (or_empty defaults)) \<inter> set (map fst kwargs) = {}
          \<and> ''commit'' \<notin> set (map fst (or_empty defaults @ kwargs))
          \<and> ''self'' \<notin> set (map fst (or_empty defaults @ kwargs))
          \<longrightarrow>
            get_or_create e defaults commit kwargs s =
              (case create e commit (or_empty defaults @ kwargs) s1 of
                 (Inl err, s2) \<Rightarrow> (Inl err, s2)
               | (Inr i, s2) \<Rightarrow> (Inr (i, True), s2))
          \<and> update_or_create e defaults commit kwargs s =
              (case create e commit (or_empty defaults @ kwargs) s1 of
                 (Inl err, s2) \<Rightarrow> (Inl err, s2)
               | (Inr i, s2) \<Rightarrow> (Inr (i, True), s2))
          \<and> (\<forall>i s2. create e commit (or_empty defaults @ kwargs) s1 = (Inr i, s2) \<longrightarrow>
                (\<forall>(k, v) \<in> set (or_empty defaults @ kwargs).
                    v \<noteq> PNone \<or> k \<notin> set (pkey e) \<longrightarrow> attrs_of s2 i k = Some v)))
       \<and> (set (map fst (or_empty defaults)) \<inter> set (map fst kwargs) \<noteq> {}
          \<longrightarrow>
            (\<exists>k. get_or_create e defaults commit kwargs s = (Inl (TypeError (MultipleValues k)), s1))
          \<and> (\<exists>k. update_or_create e defaults commit kwargs s = (Inl (TypeError (MultipleValues k)), s1)))"
proof (intro conjI impI)
  assume a: "distinct (map fst (or_empty defaults)) \<and> distinct (map fst kwargs)
          \<and> set (map fst (or_empty defaults)) \<inter> set (map fst kwargs) = {}
          \<and> ''commit'' \<notin> set (map fst (or_empty defaults @ kwargs))
          \<and> ''self'' \<notin> set (map fst (or_empty defaults @ kwargs))"
  then have cc: "call_create (or_empty defaults) kwargs = Inr (or_empty defaults @ kwargs)"
    by (intro call_create_ok) simp_all
  from assms cc show "get_or_create e defaults commit kwargs s =
              (case create e commit (or_empty defaults @ kwargs) s1 of
                 (Inl err, s2) \<Rightarrow> (Inl err, s2)
               | (Inr i, s2) \<Rightarrow> (Inr (i, True), s2))"
    by (simp add: get_or_create_def)
  from assms cc show "update_or_create e defaults commit kwargs s =
              (case create e commit (or_empty defaults @ kwargs) s1 of
                 (Inl err, s2) \<Rightarrow> (Inl err, s2)
               | (Inr i, s2) \<Rightarrow> (Inr (i, True), s2))"
    by (simp add: update_or_create_def)
  from a have d: "distinct (map fst (or_empty defaults @ kwargs))" by auto
  show "\<forall>i s2. create e commit (or_empty defaults @ kwargs) s1 = (Inr i, s2) \<longrightarrow>
                (\<forall>(k, v) \<in> set (or_empty defaults @ kwargs).
                    v \<noteq> PNone \<or> k \<notin> set (pkey e) \<longrightarrow> attrs_of s2 i k = Some v)"
    using create_attrs(2) [OF _ d] by blast
next
  assume "set (map fst (or_empty defaults)) \<inter> set (map fst kwargs) \<noteq> {}"
  then obtain k where "k \<in> set (map fst (or_empty defaults))" "k \<in> set (map fst kwargs)"
    by blast
  from call_create_shared [OF this] obtain k'
    where cc: "call_create (or_empty defaults) kwargs = Inl (TypeError (MultipleValues k'))"
    by blast
  from assms cc show "\<exists>k. get_or_create e defaults commit kwargs s = (Inl (TypeError (MultipleValues k)), s1)"
    by (simp add: get_or_create_def)
  from assms cc show "\<exists>k. update_or_create e defaults commit kwargs s = (Inl (TypeError (MultipleValues k)), s1)"
    by (simp add: update_or_create_def)
qed

lemma lookup_empty: "maybe_get_by User filter_email empty_session = (Inr None, empty_session)"
  by (simp add: eval_defs)

theorem create_branch_keywords_witness:
  "maybe_get_by User filter_email empty_session = (Inr None, empty_session)
   \<and> fst (get_or_create User (Some defaults_name) False filter_email empty_session) = Inr (0, True)
   \<and> attrs_of (snd (get_or_create User (Some defaults_name) False filter_email empty_session)) 0 ''email''
       = Some (PStr ''b@x.com'')
   \<and> attrs_of (snd (get_or_create User (Some defaults_name) False filter_email empty_session)) 0 ''first_name''
       = Some (PStr ''B'')
   \<and> get_or_create User (Some [(''email'', PStr ''z@x.com'')]) False filter_email empty_session
       = (Inl (TypeError (MultipleValues ''email'')), empty_session)"
proof -
  note t1 = create_branch_keywords [OF lookup_empty, where defaults = "Some defaults_name" and commit = False]
  note t2 = create_branch_keywords
              [OF lookup_empty, where defaults = "Some [(''email'', PStr ''z@x.com'')]" and commit = False]
  have "fst (create User False (defaults_name @ filter_email) empty_session) = Inr 0"
    by (simp add: eval_defs)
  then obtain s2 where c: "create User False (defaults_name @ filter_email) empty_session = (Inr 0, s2)"
    by (cases "create User False (defaults_name @ filter_email) empty_session") auto
  from t1 c have g: "get_or_create User (Some defaults_name) False filter_email empty_session
       = (Inr (0, True), s2)"
    by (simp add: filter_email_def defaults_name_def)
  from t1 c have a: "attrs_of s2 0 ''email'' = Some (PStr ''b@x.com'')
       \<and> attrs_of s2 0 ''first_name'' = Some (PStr ''B'')"
    by (simp add: filter_email_def defaults_name_def)
  from t2 obtain k where k: "get_or_create User (Some [(''email'', PStr ''z@x.com'')]) False filter_email empty_session
       = (Inl (TypeError (MultipleValues k)), empty_session)"
    by (auto simp: filter_email_def)
  have "get_or_create User (Some [(''email'', PStr ''z@x.com'')]) False filter_email empty_session
       = (Inl (TypeError (MultipleValues ''email'')), empty_session)"
    by (simp add: eval_defs)
  with g a lookup_empty show ?thesis
    by simp
qed

subsection \<open>Update or create\<close>








subsection \<open>Create, commit and lookup\<close>

lemma fst_rows_sync_rows: "map fst (rows (sync_rows s)) = map fst (rows s)"
  by (simp add: sync_rows_def split_def)

lemma sync_rows_frame:
  "autoflush (sync_rows s) = autoflush s \<and> next_oid (sync_rows s) = next_oid s
   \<and> pending (sync_rows s) = pending s \<and> durable (sync_rows s) = durable s
   \<and> next_key (sync_rows s) = next_key s
   \<and> query_fault (sync_rows s) = query_fault s \<and> flush_fault (sync_rows s) = flush_fault s"
  by (simp add: sync_rows_def)

lemma find_last:
  "\<forall>x \<in> set xs. \<not> P x \<Longrightarrow> P y \<Longrightarrow> find P (xs @ [y]) = Some y"
  by (induction xs) auto

lemma load_in_memory: "objs s (fst r) = Some a \<Longrightarrow> load r s = s"
  by (simp add: load_def)

lemma in_sync_transfer:
  assumes "in_sync s" and "rows t = rows s"
    and "\<forall>r \<in> set (rows s). objs t (fst r) = objs s (fst r)"
  shows "in_sync t"
  using assms by (fastforce simp: in_sync_def list_all_iff)

lemma session_add_fresh:
  "i \<notin> set (pending s) \<Longrightarrow> i \<notin> set (map fst (rows s)) \<Longrightarrow>
   session_add i s = s\<lparr>pending := pending s @ [i]\<rparr>"
  by (simp add: session_add_def)

lemma wf_session_fresh:
  assumes "wf_session s"
  shows "next_oid s \<notin> set (pending s)" and "next_oid s \<notin> set (map fst (rows s))"
    and "distinct (pending s @ [next_oid s])"
    and "set (pending s @ [next_oid s]) \<inter> set (map fst (rows s)) = {}"
  using assms by (auto simp: wf_session_def list_all_iff)

lemma create_commit_shape:
  assumes "wf_session s" and "create e True kw s = (Inr i, s1)"
  shows "i = next_oid s
       \<and> (\<exists>R a. rows s1 = R @ [(i, a)] \<and> key_of e a \<notin> set (map (\<lambda>(j, b). key_of e b) R)
               \<and> objs s1 i = Some a \<and> (pending s = [] \<and> in_sync s \<longrightarrow> R = rows s))
       \<and> pending s1 = [] \<and> in_sync s1 \<and> durable s1 = rows s1
       \<and> flush_fault s1 = None \<and> query_fault s1 = query_fault s \<and> autoflush s1 = autoflush s"
proof -
  from create_Inr [OF assms(2)] obtain sc
    where c: "construct e kw s = (Inr i, sc)" and sv: "save e i True sc = (Inr i, s1)" by blast
  note i = construct_Inr(1) [OF c]
  note sc = construct_Inr(2) [OF c]
  note cf = construct_frame [OF c]
  let ?sa = "sc\<lparr>pending := pending s @ [i]\<rparr>"
  from wf_session_fresh(1,2) [OF assms(1)] cf i
  have add: "session_add i sc = ?sa"
    by (simp add: session_add_fresh)
  from sv add obtain u where cm: "session_commit e ?sa = (Inr u, s1)"
    by (auto simp: save_def Let_def split: prod.splits sum.splits)
  from session_commit_Inr [OF cm] obtain sf
    where fl: "session_flush e ?sa = (Inr (), sf)" and s1: "s1 = sf\<lparr>durable := rows sf\<rparr>" by blast
  from session_flush_Inr [OF fl]
  have ff: "flush_fault ?sa = None"
    and ins: "insert_pending e (pending s @ [i]) (sync_rows ?sa) = (Inr (), sf)"
    by simp_all
  from insert_pending_last [OF ins] obtain R a
    where R: "rows sf = R @ [(i, a)]" "key_of e a \<notin> set (map (\<lambda>(j, b). key_of e b) R)"
      "objs sf i = Some a" "pending sf = []" "pending s = [] \<longrightarrow> R = rows (sync_rows ?sa)"
    by blast
  have other: "\<forall>r \<in> set (rows s). objs ?sa (fst r) = objs s (fst r)"
  proof
    fix r assume "r \<in> set (rows s)"
    then have "fst r \<in> set (map fst (rows s))" by simp
    with wf_session_fresh(2) [OF assms(1)] have "fst r \<noteq> next_oid s" by metis
    then show "objs ?sa (fst r) = objs s (fst r)"
      unfolding sc by (simp add: setattrs_other)
  qed
  have rows_sa: "rows ?sa = rows s" using cf by simp
  have R_eq: "pending s = [] \<and> in_sync s \<longrightarrow> R = rows s"
  proof
    assume a: "pending s = [] \<and> in_sync s"
    then have "in_sync s" by (rule conjunct2)
    from in_sync_transfer [OF this rows_sa other] have "in_sync ?sa" .
    then have "sync_rows ?sa = ?sa" by (rule in_sync_sync_rows)
    then have "rows (sync_rows ?sa) = rows s" using rows_sa by (simp only:)
    with R(5) a show "R = rows s" by (simp only:)
  qed
  have "in_sync sf"
  proof (rule insert_pending_in_sync [OF ins sync_rows_in_sync])
    from wf_session_fresh(3) [OF assms(1)] i show "distinct (pending s @ [i])" by (simp only:)
    from wf_session_fresh(4) [OF assms(1)] i rows_sa
    show "set (pending s @ [i]) \<inter> set (map fst (rows (sync_rows ?sa))) = {}"
      by (simp only: fst_rows_sync_rows)
  qed
  then have sync1: "in_sync s1" unfolding s1 by (simp add: in_sync_def)
  from insert_pending_frame [OF ins] cf ff
  have fr: "flush_fault sf = None \<and> query_fault sf = query_fault s \<and> autoflush sf = autoflush s"
    by (simp add: sync_rows_frame)
  have ex: "\<exists>R a. rows s1 = R @ [(i, a)] \<and> key_of e a \<notin> set (map (\<lambda>(j, b). key_of e b) R)
               \<and> objs s1 i = Some a \<and> (pending s = [] \<and> in_sync s \<longrightarrow> R = rows s)"
  proof (intro exI conjI)
    from R(1) show "rows s1 = R @ [(i, a)]" unfolding s1 by simp
    from R(2) show "key_of e a \<notin> set (map (\<lambda>(j, b). key_of e b) R)" .
    from R(3) show "objs s1 i = Some a" unfolding s1 by simp
    from R_eq show "pending s = [] \<and> in_sync s \<longrightarrow> R = rows s" .
  qed
  have rest: "pending s1 = [] \<and> durable s1 = rows s1
       \<and> flush_fault s1 = None \<and> query_fault s1 = query_fault s \<and> autoflush s1 = autoflush s"
    using R(4) fr unfolding s1 by simp
  from i ex sync1 rest show ?thesis by (simp only: simp_thms)
qed

lemma flush_nothing:
  assumes "pending s = []" and "in_sync s" and "flush_fault s = None"
  shows "autoflush_step e s = (Inr (), s)"
  using assms by (simp add: autoflush_step_def session_flush_def in_sync_sync_rows)

lemma load_autoflush: "load r (s\<lparr>autoflush := b\<rparr>) = (load r s)\<lparr>autoflush := b\<rparr>"
  by (simp add: load_def split: option.splits)

lemma fold_load_autoflush:
  "fold load rs (s\<lparr>autoflush := b\<rparr>) = (fold load rs s)\<lparr>autoflush := b\<rparr>"
  by (induction rs arbitrary: s) (simp_all add: load_autoflush)

lemma restore_autoflush: "autoflush t = b \<Longrightarrow> t\<lparr>autoflush := b\<rparr> = t"
  by auto

lemma maybe_get_by_answered:
  assumes "set (map fst kw) \<subseteq> set (field_names e)" and "query_fault s = None"
  shows "maybe_get_by e kw s =
           (case one_or_none (map fst (filter (\<lambda>(i, a). matches kw a) (rows s))) of
              Inl err \<Rightarrow> Inl err | Inr r \<Rightarrow> Inr r,
            fold load (filter (\<lambda>(i, a). matches kw a) (rows s)) s)"
proof -
  let ?s0 = "s\<lparr>autoflush := False\<rparr>"
  let ?found = "filter (\<lambda>(i, a). matches kw a) (rows s)"
  have step: "autoflush_step e ?s0 = (Inr (), ?s0)" by (simp add: autoflush_step_def)
  have qf: "query_fault ?s0 = None" using assms(2) by simp
  from get_by_answered [OF assms(1) step qf]
  have g: "get_by e kw ?s0 =
             (case one_or_none (map fst ?found) of Inl err \<Rightarrow> Inl err | Inr r \<Rightarrow> Inr r,
              fold load ?found ?s0)"
    by simp
  have "autoflush (fold load ?found s) = autoflush s"
    by (simp add: fold_load_frame)
  then have "(fold load ?found s)\<lparr>autoflush := autoflush s\<rparr> = fold load ?found s"
    by (rule restore_autoflush)
  then have restored: "(fold load ?found ?s0)\<lparr>autoflush := autoflush s\<rparr> = fold load ?found s"
    by (simp add: fold_load_autoflush)
  show ?thesis
  proof (cases "one_or_none (map fst ?found)")
    case (Inl err)
    then have "err = MultipleResultsFound"
      by (cases "map fst ?found" rule: one_or_none.cases) simp_all
    with Inl g have "get_by e kw ?s0 = (Inl MultipleResultsFound, fold load ?found ?s0)" by simp
    from maybe_get_by_raised [OF this] Inl \<open>err = MultipleResultsFound\<close> restored
    show ?thesis by simp
  next
    case (Inr r)
    with g have "get_by e kw ?s0 = (Inr r, fold load ?found ?s0)" by simp
    from maybe_get_by_Inr [OF this] Inr restored show ?thesis by simp
  qed
qed

lemma maybe_get_by_invalid:
  assumes "\<not> set (map fst kw) \<subseteq> set (field_names e)"
  shows "\<exists>err. maybe_get_by e kw s = (Inl err, s)"
proof -
  from assms have "find (\<lambda>k. k \<notin> set (field_names e)) (map fst kw) \<noteq> None"
    by (auto simp: find_None_iff)
  then obtain k where "select_filter_by e kw = Inl (InvalidRequestError k)"
    by (auto simp: select_filter_by_def)
  then have "get_by e kw (s\<lparr>autoflush := False\<rparr>) = (Inl (InvalidRequestError k), s\<lparr>autoflush := False\<rparr>)"
    by (simp add: get_by_def)
  from maybe_get_by_raised [OF this] show ?thesis by simp
qed

lemma create_branch_success:
  assumes "create_branch e d commit kwargs s = (Inr r, s2)"
  shows "\<exists>i. r = (i, True) \<and> create e commit (d @ kwargs) s = (Inr i, s2)
            \<and> distinct (map fst (d @ kwargs))"
proof -
  obtain kw where cc: "call_create d kwargs = Inr kw"
    using assms by (cases "call_create d kwargs") auto
  from call_create_Inr [OF cc] have kw: "kw = d @ kwargs" and dist: "distinct (map fst (d @ kwargs))"
    by simp_all
  from assms cc kw dist show ?thesis
    by (auto split: prod.splits sum.splits)
qed

text \<open>
  C7, as stated: \<^verbatim>\<open>create(fields)\<close> followed by \<^verbatim>\<open>get(pk)\<close> returns the created instance,
  equal in all fields to the supplied values. On a unit of work as the session factory
  configures it (autoflush off), \<^verbatim>\<open>create\<close> without the commit flag only attaches the
  instance, and \<^verbatim>\<open>get\<close> of its key finds no row. And for a user created with
  \<^verbatim>\<open>id=None\<close> and the commit flag, the instance holds the key the store generated, not
  the supplied \<^verbatim>\<open>None\<close>.
\<close>

theorem create_then_get_counterexample:
  "fst (create AccessToken False token_fields empty_session) = Inr 0
   \<and> key_of AccessToken (attrs_of (snd (create AccessToken False token_fields empty_session)) 0)
       = [PStr ''tok'']
   \<and> fst (get AccessToken [PStr ''tok''] (snd (create AccessToken False token_fields empty_session)))
       = Inr None
   \<and> fst (create User True none_id_fields empty_session) = Inr 0
   \<and> attrs_of (snd (create User True none_id_fields empty_session)) 0 ''id'' = Some (PInt 1)"
  by (simp add: eval_defs token_fields_def none_id_fields_def)

lemma load_keeps_obj: "objs s i = Some a \<Longrightarrow> objs (load r s) i = Some a"
  by (auto simp: load_def split: option.splits)

lemma get_Inr:
  assumes "get e ident s = (Inr r, s2)"
  shows "length ident = length (pkey e)
       \<and> (\<exists>sf. autoflush_step e s = (Inr (), sf) \<and> query_fault sf = None
             \<and> (case find (\<lambda>(i, a). key_of e a = ident) (rows sf) of
                   None \<Rightarrow> r = None \<and> s2 = sf
                 | Some x \<Rightarrow> r = Some (fst x) \<and> s2 = load x sf))"
proof -
  from assms have len: "length ident = length (pkey e)"
    by (auto simp: get_def session_get_def split: if_splits)
  obtain rf sf where st: "autoflush_step e s = (rf, sf)" by (cases "autoflush_step e s")
  from assms len st have rf: "rf = Inr ()"
    by (cases rf) (simp_all add: get_def session_get_def)
  from assms len st rf have qf: "query_fault sf = None"
    by (cases "query_fault sf") (simp_all add: get_def session_get_def)
  from assms len st rf qf
  have "case find (\<lambda>(i, a). key_of e a = ident) (rows sf) of
                   None \<Rightarrow> r = None \<and> s2 = sf
                 | Some x \<Rightarrow> r = Some (fst x) \<and> s2 = load x sf"
    by (auto simp: get_def session_get_def split: option.splits)
  with len st rf qf show ?thesis by blast
qed

lemma get_finds_last:
  assumes g: "get e ident s = (Inr r, s2)"
    and st: "autoflush_step e s = (Inr (), sf)"
    and rows: "rows sf = R @ [(i, a)]"
    and key: "key_of e a \<notin> set (map (\<lambda>(j, b). key_of e b) R)"
    and obj: "objs sf i = Some a"
    and ident: "ident = key_of e (attrs_of s2 i)"
  shows "r = Some i \<and> s2 = sf"
proof -
  from get_Inr [OF g] st
  have c: "case find (\<lambda>(i, a). key_of e a = ident) (rows sf) of
                   None \<Rightarrow> r = None \<and> s2 = sf
                 | Some x \<Rightarrow> r = Some (fst x) \<and> s2 = load x sf"
    by simp
  have "objs s2 i = Some a"
  proof (cases "find (\<lambda>(i, a). key_of e a = ident) (rows sf)")
    case None
    with c obj show ?thesis by simp
  next
    case (Some x)
    with c obj show ?thesis by (simp add: load_keeps_obj)
  qed
  with ident have id: "ident = key_of e a" by (simp add: attrs_of_def)
  have "\<forall>x \<in> set R. \<not> (\<lambda>(j, b). key_of e b = key_of e a) x"
  proof
    fix x assume "x \<in> set R"
    then have "(\<lambda>(j, b). key_of e b) x \<in> set (map (\<lambda>(j, b). key_of e b) R)" by simp
    with key show "\<not> (\<lambda>(j, b). key_of e b = key_of e a) x" by (cases x) auto
  qed
  then have "find (\<lambda>(j, b). key_of e b = key_of e a) (R @ [(i, a)]) = Some (i, a)"
    by (rule find_last) simp
  with c id rows obj show ?thesis by (simp add: load_in_memory)
qed

lemma create_pending_shape:
  assumes "wf_session s" and "create e False kw s = (Inr i, s1)"
  shows "i = next_oid s \<and> pending s1 = pending s @ [i] \<and> rows s1 = rows s
       \<and> flush_fault s1 = flush_fault s \<and> query_fault s1 = query_fault s
       \<and> autoflush s1 = autoflush s \<and> durable s1 = durable s"
proof -
  from create_Inr [OF assms(2)] obtain sc
    where c: "construct e kw s = (Inr i, sc)" and sv: "save e i False sc = (Inr i, s1)" by blast
  note i = construct_Inr(1) [OF c]
  note cf = construct_frame [OF c]
  from wf_session_fresh(1,2) [OF assms(1)] cf i
  have add: "session_add i sc = sc\<lparr>pending := pending s @ [i]\<rparr>"
    by (simp add: session_add_fresh)
  from sv add have "s1 = sc\<lparr>pending := pending s @ [i]\<rparr>" by (auto simp: save_def)
  with i cf show ?thesis by simp
qed

lemma session_flush_keeps_attrs:
  assumes "session_flush e s = (r, s1)" and "attrs_of s i k = Some v"
    and "v \<noteq> PNone \<or> k \<notin> set (pkey e)"
  shows "attrs_of s1 i k = Some v"
proof (cases "flush_fault s")
  case None
  with assms(1) have ins: "insert_pending e (pending s) (sync_rows s) = (r, s1)"
    by (simp add: session_flush_def)
  have "attrs_of (sync_rows s) i k = Some v"
    using assms(2) attrs_of_cong [OF objs_sync_rows, of s i] by simp
  from insert_pending_keeps_attrs [OF ins this assms(3)] show ?thesis .
next
  case (Some f)
  with assms(1,2) show ?thesis by (simp add: session_flush_def)
qed

lemma autoflush_step_keeps_attrs:
  assumes "autoflush_step e s = (r, s1)" and "attrs_of s i k = Some v"
    and "v \<noteq> PNone \<or> k \<notin> set (pkey e)"
  shows "attrs_of s1 i k = Some v"
proof (cases "autoflush s")
  case True
  with assms(1) have "session_flush e s = (r, s1)" by (simp add: autoflush_step_def)
  from session_flush_keeps_attrs [OF this assms(2,3)] show ?thesis .
next
  case False
  with assms(1,2) show ?thesis by (simp add: autoflush_step_def)
qed

lemma load_keeps_attrs: "attrs_of s i k = Some v \<Longrightarrow> attrs_of (load r s) i k = Some v"
  by (auto simp: load_def attrs_of_def split: option.splits)

lemma get_keeps_attrs:
  assumes "get e ident s = (Inr r, s2)" and "attrs_of s i k = Some v"
    and "v \<noteq> PNone \<or> k \<notin> set (pkey e)"
  shows "attrs_of s2 i k = Some v"
proof -
  from get_Inr [OF assms(1)] obtain sf
    where st: "autoflush_step e s = (Inr (), sf)"
      and c: "case find (\<lambda>(i, a). key_of e a = ident) (rows sf) of
                   None \<Rightarrow> r = None \<and> s2 = sf
                 | Some x \<Rightarrow> r = Some (fst x) \<and> s2 = load x sf"
    by blast
  from autoflush_step_keeps_attrs [OF st assms(2,3)] have a: "attrs_of sf i k = Some v" .
  show ?thesis
  proof (cases "find (\<lambda>(i, a). key_of e a = ident) (rows sf)")
    case None
    with c a show ?thesis by simp
  next
    case (Some x)
    with c a show ?thesis by (simp add: load_keeps_attrs)
  qed
qed

lemma insert_pending_last_key:
  "insert_pending e (js @ [i]) s = (Inr (), s') \<Longrightarrow> PNone \<notin> set (key_of e (attrs_of s' i))"
proof (induction js arbitrary: s)
  case Nil
  obtain a n where an: "assign_key e (attrs_of s i) (next_key s) = (a, n)"
    by (cases "assign_key e (attrs_of s i) (next_key s)")
  from Nil an show ?case
    by (auto simp: Let_def attrs_of_def split: if_splits)
next
  case (Cons j js)
  obtain a n where an: "assign_key e (attrs_of s j) (next_key s) = (a, n)"
    by (cases "assign_key e (attrs_of s j) (next_key s)")
  show ?case
  proof (cases "PNone \<in> set (key_of e a) \<or> key_of e a \<in> set (map (\<lambda>(j, b). key_of e b) (rows s))")
    case True
    with Cons.prems an show ?thesis by simp
  next
    case False
    with Cons.prems an have
      "insert_pending e (js @ [i]) (s\<lparr>objs := (objs s)(j \<mapsto> a), rows := rows s @ [(j, a)],
                              pending := js @ [i], next_key := n\<rparr>) = (Inr (), s')"
      by simp
    from Cons.IH [OF this] show ?thesis .
  qed
qed

lemma create_commit_key:
  assumes "wf_session s" and "create e True kw s = (Inr i, s1)"
  shows "PNone \<notin> set (key_of e (attrs_of s1 i))"
proof -
  from create_Inr [OF assms(2)] obtain sc
    where c: "construct e kw s = (Inr i, sc)" and sv: "save e i True sc = (Inr i, s1)" by blast
  note i = construct_Inr(1) [OF c]
  note cf = construct_frame [OF c]
  let ?sa = "sc\<lparr>pending := pending s @ [i]\<rparr>"
  from wf_session_fresh(1,2) [OF assms(1)] cf i
  have add: "session_add i sc = ?sa"
    by (simp add: session_add_fresh)
  from sv add obtain u where cm: "session_commit e ?sa = (Inr u, s1)"
    by (auto simp: save_def Let_def split: prod.splits sum.splits)
  from session_commit_Inr [OF cm] obtain sf
    where fl: "session_flush e ?sa = (Inr (), sf)" and s1: "s1 = sf\<lparr>durable := rows sf\<rparr>" by blast
  from session_flush_Inr [OF fl]
  have ins: "insert_pending e (pending s @ [i]) (sync_rows ?sa) = (Inr (), sf)"
    by simp
  from insert_pending_last_key [OF ins] have "PNone \<notin> set (key_of e (attrs_of sf i))" .
  then show ?thesis unfolding s1 by (simp add: attrs_of_def)
qed

lemma key_stable:
  assumes "get e ident s = (Inr r, s2)" and "PNone \<notin> set (key_of e (attrs_of s i))"
  shows "key_of e (attrs_of s2 i) = key_of e (attrs_of s i)"
  unfolding key_of_def
proof (rule map_cong [OF refl])
  fix k assume k: "k \<in> set (pkey e)"
  then have "col (attrs_of s i) k \<in> set (key_of e (attrs_of s i))" by (simp add: key_of_def)
  with assms(2) have "col (attrs_of s i) k \<noteq> PNone" by metis
  then obtain v where v: "attrs_of s i k = Some v" "v \<noteq> PNone"
    by (cases "attrs_of s i k") (auto simp: col_def)
  from get_keeps_attrs [OF assms(1) v(1)] v(2) have "attrs_of s2 i k = Some v" by blast
  with v(1) show "col (attrs_of s2 i) k = col (attrs_of s i) k" by (simp add: col_def)
qed

text \<open>
  C7, amended: for every entity type and field values with distinct names, on a unit of
  work that satisfies its invariant and whose store answers queries, when \<^verbatim>\<open>create\<close>
  succeeds:
  \<^item> with the commit flag set, the created instance holds a primary key without \<^verbatim>\<open>None\<close>,
    and \<^verbatim>\<open>get\<close> of that key returns this very instance and leaves the unit of work as
    it is;
  \<^item> on a unit of work with autoflush on, if the created instance holds a primary key
    without \<^verbatim>\<open>None\<close> right after \<^verbatim>\<open>create\<close> (with the commit flag, or a key the caller
    supplied), then whenever \<^verbatim>\<open>get\<close> of that key returns (without the commit flag its
    flush can still raise) it returns this very instance, which carries the supplied
    values after the lookup too;
  \<^item> the created instance carries every supplied value, a key column supplied as
    \<^verbatim>\<open>None\<close> excepted.

  Nothing is stated for \<^verbatim>\<open>create\<close> without the commit flag when the key is left to the
  store: the instance has no key to look up before a flush.
\<close>

theorem create_then_get:
  assumes "wf_session s" and "create e commit field_values s = (Inr i, s1)"
    and "query_fault s = None" and "distinct (map fst field_values)"
  shows "(commit \<longrightarrow>
            PNone \<notin> set (key_of e (attrs_of s1 i))
          \<and> get e (key_of e (attrs_of s1 i)) s1 = (Inr (Some i), s1))
       \<and> (autoflush s \<and> PNone \<notin> set (key_of e (attrs_of s1 i)) \<longrightarrow>
            (\<forall>r s2. get e (key_of e (attrs_of s1 i)) s1 = (Inr r, s2) \<longrightarrow>
                r = Some i
              \<and> (\<forall>(k, v) \<in> set field_values.
                    v \<noteq> PNone \<or> k \<notin> set (pkey e) \<longrightarrow> attrs_of s2 i k = Some v)))
       \<and> (\<forall>(k, v) \<in> set field_values.
             v \<noteq> PNone \<or> k \<notin> set (pkey e) \<longrightarrow> attrs_of s1 i k = Some v)"
proof (intro conjI impI allI)
  assume commit
  with assms(2) have c: "create e True field_values s = (Inr i, s1)" by simp
  from create_commit_key [OF assms(1) c]
  show "PNone \<notin> set (key_of e (attrs_of s1 i))" .
  from create_commit_shape [OF assms(1) c] obtain R a
    where R: "rows s1 = R @ [(i, a)]" "key_of e a \<notin> set (map (\<lambda>(j, b). key_of e b) R)"
      "objs s1 i = Some a"
    and st: "pending s1 = []" "in_sync s1" "flush_fault s1 = None" "query_fault s1 = query_fault s"
    by blast
  from R(3) have a: "attrs_of s1 i = a" by (simp add: attrs_of_def)
  have len: "length (key_of e a) = length (pkey e)" by (simp add: key_of_def)
  note step = flush_nothing [OF st(1,2,3), of e]
  from st(4) assms(3) have qf: "query_fault s1 = None" by simp
  have "\<forall>x \<in> set R. \<not> (\<lambda>(j, b). key_of e b = key_of e a) x"
  proof
    fix x assume "x \<in> set R"
    then have "(\<lambda>(j, b). key_of e b) x \<in> set (map (\<lambda>(j, b). key_of e b) R)" by simp
    with R(2) show "\<not> (\<lambda>(j, b). key_of e b = key_of e a) x" by (cases x) auto
  qed
  then have "find (\<lambda>(j, b). key_of e b = key_of e a) (R @ [(i, a)]) = Some (i, a)"
    by (rule find_last) simp
  with session_get_answered [OF len step qf] R(1) R(3)
  show "get e (key_of e (attrs_of s1 i)) s1 = (Inr (Some i), s1)"
    unfolding a by (simp add: load_in_memory)
next
  fix r s2
  assume h: "autoflush s \<and> PNone \<notin> set (key_of e (attrs_of s1 i))"
    and g1: "get e (key_of e (attrs_of s1 i)) s1 = (Inr r, s2)"
  from h have af: "autoflush s" and nn: "PNone \<notin> set (key_of e (attrs_of s1 i))" by blast+
  from key_stable [OF g1 nn]
  have g2: "key_of e (attrs_of s1 i) = key_of e (attrs_of s2 i)" by simp
  show "r = Some i"
  proof (cases commit)
    case True
    with assms(2) have c: "create e True field_values s = (Inr i, s1)" by simp
    from create_commit_shape [OF assms(1) c] obtain R a
      where R: "rows s1 = R @ [(i, a)]" "key_of e a \<notin> set (map (\<lambda>(j, b). key_of e b) R)"
        "objs s1 i = Some a"
      and st: "pending s1 = []" "in_sync s1" "flush_fault s1 = None"
      by blast
    note step = flush_nothing [OF st(1,2,3), of e]
    from get_finds_last [OF g1 step R g2] show ?thesis by simp
  next
    case False
    with assms(2) have c: "create e False field_values s = (Inr i, s1)" by simp
    note sh = create_pending_shape [OF assms(1) c]
    from get_Inr [OF g1] obtain sf where st: "autoflush_step e s1 = (Inr (), sf)" by blast
    with af sh have "session_flush e s1 = (Inr (), sf)" by (simp add: autoflush_step_def)
    from session_flush_Inr [OF this] sh
    have ins: "insert_pending e (pending s @ [i]) (sync_rows s1) = (Inr (), sf)" by simp
    from insert_pending_last [OF ins] obtain R a
      where R: "rows sf = R @ [(i, a)]" "key_of e a \<notin> set (map (\<lambda>(j, b). key_of e b) R)"
        "objs sf i = Some a"
      by blast
    from get_finds_last [OF g1 st R g2] show ?thesis by simp
  qed
  show "\<forall>(k, v) \<in> set field_values.
                 v \<noteq> PNone \<or> k \<notin> set (pkey e) \<longrightarrow> attrs_of s2 i k = Some v"
    using create_attrs(2) [OF assms(2,4)] get_keeps_attrs [OF g1] by blast
next
  show "\<forall>(k, v) \<in> set field_values.
             v \<noteq> PNone \<or> k \<notin> set (pkey e) \<longrightarrow> attrs_of s1 i k = Some v"
    using create_attrs(2) [OF assms(2,4)] by blast
qed

text \<open>
  With the commit flag, a user created next to two others gets the key 3 from the store
  and is found under it. Without the commit flag and with autoflush on, a user created
  with the key 5 is found under it: the lookup flushes first.
\<close>

theorem create_then_get_witness:
  "wf_session two_users \<and> query_fault two_users = None
   \<and> fst (create User True (defaults_full @ filter_carol) two_users) = Inr 2
   \<and> key_of User (attrs_of (snd (create User True (defaults_full @ filter_carol) two_users)) 2)
       = [PInt 3]
   \<and> get User [PInt 3] (snd (create User True (defaults_full @ filter_carol) two_users))
       = (Inr (Some 2), snd (create User True (defaults_full @ filter_carol) two_users))
   \<and> attrs_of (snd (create User True (defaults_full @ filter_carol) two_users)) 2 ''email''
       = Some (PStr ''c@x.com'')
   \<and> wf_session autoflush_session \<and> query_fault autoflush_session = None
   \<and> autoflush autoflush_session
   \<and> fst (create User False dave_fields autoflush_session) = Inr 0
   \<and> key_of User (attrs_of (snd (create User False dave_fields autoflush_session)) 0) = [PInt 5]
   \<and> fst (get User [PInt 5] (snd (create User False dave_fields autoflush_session)))
       = Inr (Some 0)
   \<and> attrs_of (snd (get User [PInt 5] (snd (create User False dave_fields autoflush_session))))
        0 ''email'' = Some (PStr ''d@x.com'')"
proof -
  have h1: "wf_session two_users" by (simp add: wf_session_def two_users_def empty_session_def)
  have h3: "query_fault two_users = None" by (simp add: two_users_def empty_session_def)
  have h4: "distinct (map fst (defaults_full @ filter_carol))"
    by (simp add: defaults_full_def filter_carol_def)
  have "fst (create User True (defaults_full @ filter_carol) two_users) = Inr 2"
    by (simp add: eval_defs sample_defs filter_carol_def defaults_full_def)
  then obtain s1 where h2: "create User True (defaults_full @ filter_carol) two_users = (Inr 2, s1)"
    by (cases "create User True (defaults_full @ filter_carol) two_users") auto
  have "key_of User (attrs_of (snd (create User True (defaults_full @ filter_carol) two_users)) 2)
       = [PInt 3]"
    by (simp add: eval_defs sample_defs filter_carol_def defaults_full_def)
  with h2 have k1: "key_of User (attrs_of s1 2) = [PInt 3]" by simp
  note t1 = create_then_get [OF h1 h2 h3 h4]
  from t1 k1 have g1: "get User [PInt 3] s1 = (Inr (Some 2), s1)" by simp
  from t1 have "\<forall>(k, v) \<in> set (defaults_full @ filter_carol).
      v \<noteq> PNone \<or> k \<notin> set (pkey User) \<longrightarrow> attrs_of s1 2 k = Some v"
    by blast
  then have a1: "attrs_of s1 2 ''email'' = Some (PStr ''c@x.com'')"
    by (simp add: defaults_full_def filter_carol_def)
  have w1: "wf_session autoflush_session"
    by (simp add: wf_session_def autoflush_session_def empty_session_def)
  have w3: "query_fault autoflush_session = None"
    by (simp add: autoflush_session_def empty_session_def)
  have w4: "distinct (map fst dave_fields)" by (simp add: dave_fields_def)
  have w5: "autoflush autoflush_session" by (simp add: autoflush_session_def)
  have "fst (create User False dave_fields autoflush_session) = Inr 0"
    by (simp add: eval_defs dave_fields_def autoflush_session_def)
  then obtain u1 where w2: "create User False dave_fields autoflush_session = (Inr 0, u1)"
    by (cases "create User False dave_fields autoflush_session") auto
  have "key_of User (attrs_of (snd (create User False dave_fields autoflush_session)) 0) = [PInt 5]"
    by (simp add: eval_defs dave_fields_def autoflush_session_def)
  with w2 have k2: "key_of User (attrs_of u1 0) = [PInt 5]" by simp
  have "\<exists>r. fst (get User [PInt 5] (snd (create User False dave_fields autoflush_session))) = Inr r"
    by (simp add: eval_defs dave_fields_def autoflush_session_def)
  with w2 obtain r u2 where g2: "get User [PInt 5] u1 = (Inr r, u2)"
    by (cases "get User [PInt 5] u1") auto
  note t2 = create_then_get [OF w1 w2 w3 w4]
  from t2 w5 k2 g2 have r: "r = Some 0
      \<and> (\<forall>(k, v) \<in> set dave_fields.
            v \<noteq> PNone \<or> k \<notin> set (pkey User) \<longrightarrow> attrs_of u2 0 k = Some v)"
    by simp
  then have a2: "attrs_of u2 0 ''email'' = Some (PStr ''d@x.com'')"
    by (simp add: dave_fields_def)
  from h1 h2 h3 k1 g1 a1 w1 w2 w3 w5 k2 g2 r a2 show ?thesis by simp
qed

text \<open>
  C5, as stated: of two calls of \<^verbatim>\<open>get_or_create\<close> in a row with the same filter, the
  second returns the instance the first one created, with \<open>False\<close>. Without the commit
  flag the first call leaves its instance pending; the lookup of the second call runs
  with autoflush off, sees no row, and a second instance is created. The autoflush
  setting of the unit of work makes no difference.
\<close>

theorem get_or_create_twice_counterexample:
  "fst (get_or_create User (Some defaults_name) False filter_email empty_session) = Inr (0, True)
   \<and> fst (get_or_create User (Some defaults_name) False filter_email
           (snd (get_or_create User (Some defaults_name) False filter_email empty_session)))
       = Inr (1, True)
   \<and> fst (get_or_create User (Some defaults_name) False filter_email
           (snd (get_or_create User (Some defaults_name) False filter_email
                  (empty_session\<lparr>autoflush := True\<rparr>))))
       = Inr (1, True)"
  by (simp add: eval_defs)

text \<open>
  C5, amended: on a unit of work with nothing left to flush, in which no row matches the
  filter and whose store answers queries, if the filter gives no \<^verbatim>\<open>None\<close> for a key
  column and \<^verbatim>\<open>get_or_create\<close> with the commit flag set succeeds, then it returns a new
  instance with \<open>True\<close>, created from the defaults and the filter fields, and a second call
  with the same arguments returns the same instance with \<open>False\<close> and changes nothing.
\<close>

theorem get_or_create_twice_committed:
  assumes "wf_session s" and "pending s = []" and "in_sync s"
    and "\<forall>r \<in> set (rows s). \<not> matches kwargs (snd r)"
    and "query_fault s = None"
    and "\<forall>(k, v) \<in> set kwargs. k \<in> set (pkey e) \<longrightarrow> v \<noteq> PNone"
    and "get_or_create e defaults True kwargs s = (Inr r1, s1)"
  shows "r1 = (next_oid s, True)
       \<and> get_or_create e defaults True kwargs s1 = (Inr (next_oid s, False), s1)
       \<and> (\<forall>(k, v) \<in> set (or_empty defaults @ kwargs).
             v \<noteq> PNone \<or> k \<notin> set (pkey e) \<longrightarrow> attrs_of s1 (next_oid s) k = Some v)"
proof -
  have valid: "set (map fst kwargs) \<subseteq> set (field_names e)"
  proof (rule ccontr)
    assume "\<not> set (map fst kwargs) \<subseteq> set (field_names e)"
    from maybe_get_by_invalid [OF this, of s] obtain err
      where "maybe_get_by e kwargs s = (Inl err, s)" by blast
    with assms(7) show False by (simp add: get_or_create_def)
  qed
  from assms(4) have none: "filter (\<lambda>(i, a). matches kwargs a) (rows s) = []"
    by (auto simp: filter_empty_conv)
  from maybe_get_by_answered [OF valid assms(5)] none
  have look1: "maybe_get_by e kwargs s = (Inr None, s)" by simp
  with assms(7) have "create_branch e (or_empty defaults) True kwargs s = (Inr r1, s1)"
    by (simp add: get_or_create_def)
  from create_branch_success [OF this] obtain i
    where r1: "r1 = (i, True)"
      and c: "create e True (or_empty defaults @ kwargs) s = (Inr i, s1)"
      and dist: "distinct (map fst (or_empty defaults @ kwargs))"
    by blast
  from create_commit_shape [OF assms(1) c] assms(2,3) obtain a
    where i: "i = next_oid s" and rows1: "rows s1 = rows s @ [(i, a)]"
      and obj: "objs s1 i = Some a" and qf1: "query_fault s1 = query_fault s"
    by blast
  have at: "\<forall>(k, v) \<in> set (or_empty defaults @ kwargs).
             v \<noteq> PNone \<or> k \<notin> set (pkey e) \<longrightarrow> attrs_of s1 i k = Some v"
    using create_attrs(2) [OF c dist] by blast
  from obj have a: "attrs_of s1 i = a" by (simp add: attrs_of_def)
  have "matches kwargs a"
    unfolding matches_def list_all_iff
  proof
    fix x assume x: "x \<in> set kwargs"
    obtain k v where kv: "x = (k, v)" by (cases x)
    from x kv assms(6) have "v \<noteq> PNone \<or> k \<notin> set (pkey e)" by blast
    with at x kv a have "a k = Some v" by auto
    with kv show "case x of (k, v) \<Rightarrow> col a k = v" by (simp add: col_def)
  qed
  with none rows1 have found: "filter (\<lambda>(i, a). matches kwargs a) (rows s1) = [(i, a)]"
    by simp
  from qf1 assms(5) have "query_fault s1 = None" by simp
  from maybe_get_by_answered [OF valid this] found obj
  have "maybe_get_by e kwargs s1 = (Inr (Some i), s1)"
    by (simp add: load_def)
  then have "get_or_create e defaults True kwargs s1 = (Inr (i, False), s1)"
    by (simp add: get_or_create_def)
  with r1 i at show ?thesis by simp
qed

theorem get_or_create_twice_committed_witness:
  "wf_session empty_session \<and> pending empty_session = [] \<and> in_sync empty_session
   \<and> query_fault empty_session = None
   \<and> fst (get_or_create User (Some defaults_full) True filter_email empty_session) = Inr (0, True)
   \<and> fst (get_or_create User (Some defaults_full) True filter_email
           (snd (get_or_create User (Some defaults_full) True filter_email empty_session)))
       = Inr (0, False)
   \<and> snd (get_or_create User (Some defaults_full) True filter_email
           (snd (get_or_create User (Some defaults_full) True filter_email empty_session)))
       = snd (get_or_create User (Some defaults_full) True filter_email empty_session)
   \<and> attrs_of (snd (get_or_create User (Some defaults_full) True filter_email empty_session)) 0
        ''first_name'' = Some (PStr ''B'')"
proof -
  have h1: "wf_session empty_session" by (simp add: wf_session_def empty_session_def)
  have h2: "pending empty_session = []" by (simp add: empty_session_def)
  have h3: "in_sync empty_session" by (simp add: in_sync_def empty_session_def)
  have h4: "\<forall>r \<in> set (rows empty_session). \<not> matches filter_email (snd r)"
    by (simp add: empty_session_def)
  have h5: "query_fault empty_session = None" by (simp add: empty_session_def)
  have h6: "\<forall>(k, v) \<in> set filter_email. k \<in> set (pkey User) \<longrightarrow> v \<noteq> PNone"
    by (simp add: filter_email_def)
  have "fst (get_or_create User (Some defaults_full) True filter_email empty_session) = Inr (0, True)"
    by (simp add: eval_defs defaults_full_def)
  then obtain s1 where h7: "get_or_create User (Some defaults_full) True filter_email empty_session
      = (Inr (0, True), s1)"
    by (cases "get_or_create User (Some defaults_full) True filter_email empty_session") auto
  from get_or_create_twice_committed [OF h1 h2 h3 h4 h5 h6 h7]
  have "get_or_create User (Some defaults_full) True filter_email s1 = (Inr (0, False), s1)
        \<and> attrs_of s1 0 ''first_name'' = Some (PStr ''B'')"
    by (simp add: empty_session_def defaults_full_def filter_email_def User_def)
  with h1 h2 h3 h5 h7 show ?thesis by simp
qed

subsection \<open>The invariant of the unit of work\<close>

text \<open>
  The invariant assumed above holds for a fresh unit of work and is kept by the
  primitives and by the operations of the manager, whether they return or raise.
\<close>

lemma wf_session_empty: "wf_session empty_session"
  by (simp add: wf_session_def empty_session_def)

lemma wf_setattrs: "wf_session s \<Longrightarrow> wf_session (setattrs i kvs s)"
  by (simp add: wf_session_def setattrs_frame)

lemma wf_load: "wf_session s \<Longrightarrow> wf_session (load r s)"
  by (simp add: wf_session_def load_frame)

lemma wf_fold_load: "wf_session s \<Longrightarrow> wf_session (fold load rs s)"
  by (simp add: wf_session_def fold_load_frame)

lemma wf_sync_rows: "wf_session s \<Longrightarrow> wf_session (sync_rows s)"
  by (simp add: wf_session_def sync_rows_frame fst_rows_sync_rows)

lemma wf_session_add: "wf_session s \<Longrightarrow> i < next_oid s \<Longrightarrow> wf_session (session_add i s)"
  by (auto simp: wf_session_def session_add_def list_all_iff)

lemma wf_insert_pending:
  "insert_pending e js s = (r, s') \<Longrightarrow> wf_session s \<Longrightarrow> pending s = js \<Longrightarrow> wf_session s'"
proof (induction js arbitrary: s)
  case Nil
  then show ?case by simp
next
  case (Cons j js)
  obtain a n where an: "assign_key e (attrs_of s j) (next_key s) = (a, n)"
    by (cases "assign_key e (attrs_of s j) (next_key s)")
  show ?case
  proof (cases "PNone \<in> set (key_of e a) \<or> key_of e a \<in> set (map (\<lambda>(j, b). key_of e b) (rows s))")
    case True
    with Cons.prems an show ?thesis by simp
  next
    case False
    let ?s2 = "s\<lparr>objs := (objs s)(j \<mapsto> a), rows := rows s @ [(j, a)],
                  pending := js, next_key := n\<rparr>"
    from False Cons.prems an have step: "insert_pending e js ?s2 = (r, s')"
      by simp
    from Cons.prems(2,3) have "wf_session ?s2"
      by (auto simp: wf_session_def list_all_iff)
    from Cons.IH [OF step this] show ?thesis by simp
  qed
qed

lemma wf_session_flush:
  assumes "session_flush e s = (r, s')" and "wf_session s"
  shows "wf_session s'"
proof (cases "flush_fault s")
  case None
  with assms(1) have "insert_pending e (pending s) (sync_rows s) = (r, s')"
    by (simp add: session_flush_def)
  from wf_insert_pending [OF this wf_sync_rows [OF assms(2)]] show ?thesis
    by (simp add: sync_rows_frame)
next
  case (Some f)
  with assms show ?thesis by (simp add: session_flush_def)
qed

lemma wf_session_commit:
  assumes "session_commit e s = (r, s')" and "wf_session s"
  shows "wf_session s'"
proof -
  obtain r1 s1 where f: "session_flush e s = (r1, s1)" by (cases "session_flush e s")
  from wf_session_flush [OF f assms(2)] have w: "wf_session s1" .
  from assms(1) f have "s' = s1 \<or> s' = s1\<lparr>durable := rows s1\<rparr>"
    by (cases r1) (auto simp: session_commit_def)
  with w show ?thesis by (auto simp: wf_session_def)
qed

lemma wf_autoflush_step:
  "autoflush_step e s = (r, s') \<Longrightarrow> wf_session s \<Longrightarrow> wf_session s'"
  by (auto simp: autoflush_step_def wf_session_flush split: if_splits)

lemma wf_save:
  assumes "save e i commit s = (r, s')" and "wf_session s" and "i < next_oid s"
  shows "wf_session s'"
proof (cases commit)
  case True
  obtain r1 s1 where c: "session_commit e (session_add i s) = (r1, s1)"
    by (cases "session_commit e (session_add i s)")
  from wf_session_commit [OF c wf_session_add [OF assms(2,3)]] have "wf_session s1" .
  moreover from assms(1) True c have "s' = s1"
    by (cases r1) (simp_all add: save_def)
  ultimately show ?thesis by simp
next
  case False
  with assms(1) have "s' = session_add i s" by (auto simp: save_def)
  with wf_session_add [OF assms(2,3)] show ?thesis by simp
qed

lemma wf_construct:
  assumes "construct e kw s = (r, s')" and "wf_session s"
  shows "wf_session s'"
proof (cases "find (\<lambda>k. k \<notin> set (field_names e)) (map fst kw)")
  case None
  let ?s1 = "s\<lparr>objs := (objs s)(next_oid s \<mapsto> Map.empty), next_oid := Suc (next_oid s)\<rparr>"
  from assms(2) have "wf_session ?s1"
    by (auto simp: wf_session_def list_all_iff less_Suc_eq)
  then have "wf_session (setattrs (next_oid s) kw ?s1)" by (rule wf_setattrs)
  with assms(1) None show ?thesis by (simp add: construct_def)
next
  case (Some k)
  with assms show ?thesis by (simp add: construct_def)
qed

lemma wf_create:
  assumes "create e commit kw s = (r, s')" and "wf_session s"
  shows "wf_session s'"
proof -
  obtain r1 s1 where c: "construct e kw s = (r1, s1)" by (cases "construct e kw s")
  from wf_construct [OF c assms(2)] have w1: "wf_session s1" .
  show ?thesis
  proof (cases r1)
    case (Inl err)
    with assms(1) c w1 show ?thesis by (simp add: create_def)
  next
    case (Inr i)
    with c have "i = next_oid s" and "s1 = setattrs (next_oid s) kw
                (s\<lparr>objs := (objs s)(next_oid s \<mapsto> Map.empty), next_oid := Suc (next_oid s)\<rparr>)"
      by (simp_all add: construct_Inr)
    then have lt: "i < next_oid s1" by (simp add: setattrs_frame)
    obtain r2 s2 where sv: "save e i commit s1 = (r2, s2)" by (cases "save e i commit s1")
    from wf_save [OF sv w1 lt] have "wf_session s2" .
    moreover from assms(1) c Inr sv have "s' = s2"
      by (cases r2) (simp_all add: create_def)
    ultimately show ?thesis by simp
  qed
qed

lemma wf_maybe_get_by:
  assumes "maybe_get_by e kw s = (r, s')" and "wf_session s"
  shows "wf_session s'"
  using assms(2) maybe_get_by_frame [OF assms(1)]
  by (simp add: wf_session_def)

lemma wf_get_or_create:
  assumes "get_or_create e defaults commit kwargs s = (r, s')" and "wf_session s"
  shows "wf_session s'"
proof -
  obtain r1 s1 where m: "maybe_get_by e kwargs s = (r1, s1)" by (cases "maybe_get_by e kwargs s")
  from wf_maybe_get_by [OF m assms(2)] have w1: "wf_session s1" .
  show ?thesis
  proof (cases r1)
    case (Inl err)
    with assms(1) m w1 show ?thesis by (simp add: get_or_create_def)
  next
    case (Inr found)
    show ?thesis
    proof (cases found)
      case (Some i)
      with assms(1) m Inr w1 show ?thesis by (simp add: get_or_create_def)
    next
      case None
      show ?thesis
      proof (cases "call_create (or_empty defaults) kwargs")
        case (Inl err)
        with assms(1) m \<open>r1 = Inr found\<close> None w1 show ?thesis by (simp add: get_or_create_def)
      next
        case (Inr kw)
        obtain r2 s2 where c: "create e commit kw s1 = (r2, s2)" by (cases "create e commit kw s1")
        from wf_create [OF c w1] have "wf_session s2" .
        moreover from assms(1) m \<open>r1 = Inr found\<close> None Inr c have "s' = s2"
          by (cases r2) (simp_all add: get_or_create_def)
        ultimately show ?thesis by simp
      qed
    qed
  qed
qed

subsection \<open>The sibling operation \<^verbatim>\<open>update\<close>\<close>

text \<open>
  Unlike the match branch of \<^verbatim>\<open>update_or_create\<close>, \<^verbatim>\<open>update\<close> goes through \<^verbatim>\<open>save\<close>: with
  the commit flag set, what it returns has been flushed and committed.
\<close>

lemma update_commits:
  assumes "update e i True kwargs s = (Inr j, s2)"
  shows "j = i \<and> durable s2 = rows s2 \<and> pending s2 = []"
proof -
  let ?s1 = "setattrs i kwargs s"
  from assms have sv: "save e i True ?s1 = (Inr j, s2)" by (simp add: update_def)
  then obtain u where c: "session_commit e (session_add i ?s1) = (Inr u, s2)"
    by (auto simp: save_def Let_def split: prod.splits sum.splits)
  from session_commit_Inr [OF c] obtain sf
    where f: "session_flush e (session_add i ?s1) = (Inr (), sf)" and s2: "s2 = sf\<lparr>durable := rows sf\<rparr>"
    by blast
  from session_flush_Inr [OF f]
  have ins: "insert_pending e (pending (session_add i ?s1)) (sync_rows (session_add i ?s1)) = (Inr (), sf)"
    by simp
  have "pending sf = []"
  proof (cases "pending (session_add i ?s1)" rule: rev_cases)
    case Nil
    with ins show ?thesis by (auto simp: sync_rows_frame)
  next
    case (snoc js k)
    with ins insert_pending_last [of e js k "sync_rows (session_add i ?s1)" sf]
    show ?thesis by auto
  qed
  with s2 save_Inr [OF sv] show ?thesis by simp
qed

end
